theory Spec2Isabelle
  imports Complex_Main "HOL-Library.Multiset"
begin

section \<open>Constants and types\<close>

text \<open>
  The board constants of \<^verbatim>\<open>src/6ball.tsx\<close>: 15 visible rows below 5 hidden rows, 9 columns,
  and the sentinel \<^verbatim>\<open>EMPTY = -1\<close> for a cell that holds no ball.
\<close>

definition VISIBLE_ROWS :: int where "VISIBLE_ROWS = 15"
definition HIDDEN_ROWS :: int where "HIDDEN_ROWS = 5"
definition TOTAL_ROWS :: int where "TOTAL_ROWS = VISIBLE_ROWS + HIDDEN_ROWS"
definition COLS :: int where "COLS = 9"
definition EMPTY :: int where "EMPTY = -1"

lemmas board_consts = VISIBLE_ROWS_def HIDDEN_ROWS_def TOTAL_ROWS_def COLS_def EMPTY_def

text \<open>\<^verbatim>\<open>type Grid = number[][]\<close>; \<^verbatim>\<open>interface Position { r; c }\<close> is the pair \<open>(r, c)\<close>.\<close>

type_synonym Grid = "int list list"
type_synonym Position = "int \<times> int"

section \<open>Hex geometry\<close>

definition isValidPos :: "int \<Rightarrow> int \<Rightarrow> bool" where
  "isValidPos r c =
     (if r < 0 \<or> r \<ge> TOTAL_ROWS then False
      else if c < 0 \<or> c \<ge> COLS then False
      else True)"

text \<open>
  \<^verbatim>\<open>r % 2 !== 0\<close>: JavaScript's remainder of a negative odd number is \<open>-1\<close>, HOL's
  \<open>mod\<close> gives \<open>1\<close>; both differ from \<open>0\<close> exactly on the odd rows.
\<close>

definition isOdd :: "int \<Rightarrow> bool" where
  "isOdd r = (r mod 2 \<noteq> 0)"

definition neighborOffsets :: "int \<Rightarrow> Position list" where
  "neighborOffsets r =
     (if isOdd r
      then [(-1, 0), (-1, 1), (0, -1), (0, 1), (1, 0), (1, 1)]
      else [(-1, -1), (-1, 0), (0, -1), (0, 1), (1, -1), (1, 0)])"

definition getNeighbors :: "int \<Rightarrow> int \<Rightarrow> Position list" where
  "getNeighbors r c =
     filter (\<lambda>(nr, nc). isValidPos nr nc)
       (map (\<lambda>(dr, dc). (r + dr, c + dc)) (neighborOffsets r))"

definition getBottomNeighbors :: "int \<Rightarrow> int \<Rightarrow> Position list" where
  "getBottomNeighbors r c =
     (if isOdd r then [(r + 1, c), (r + 1, c + 1)] else [(r + 1, c - 1), (r + 1, c)])"

definition getTopNeighbors :: "int \<Rightarrow> int \<Rightarrow> Position list" where
  "getTopNeighbors r c =
     (if isOdd r then [(r - 1, c), (r - 1, c + 1)] else [(r - 1, c - 1), (r - 1, c)])"

lemma getNeighbors_length: "length (getNeighbors r c) \<le> 6"
proof -
  have "length (getNeighbors r c) \<le> length (neighborOffsets r)"
    unfolding getNeighbors_def by (metis length_filter_le length_map)
  also have "length (neighborOffsets r) = 6"
    by (simp add: neighborOffsets_def)
  finally show ?thesis .
qed

lemma getNeighbors_valid: "(nr, nc) \<in> set (getNeighbors r c) \<Longrightarrow> isValidPos nr nc"
  by (auto simp: getNeighbors_def)

lemma getNeighbors_iff:
  "(nr, nc) \<in> set (getNeighbors r c) \<longleftrightarrow>
     isValidPos nr nc \<and>
     (if isOdd r
      then (nr = r - 1 \<and> (nc = c \<or> nc = c + 1)) \<or> (nr = r \<and> (nc = c - 1 \<or> nc = c + 1))
         \<or> (nr = r + 1 \<and> (nc = c \<or> nc = c + 1))
      else (nr = r - 1 \<and> (nc = c - 1 \<or> nc = c)) \<or> (nr = r \<and> (nc = c - 1 \<or> nc = c + 1))
         \<or> (nr = r + 1 \<and> (nc = c - 1 \<or> nc = c)))"
  by (auto simp: getNeighbors_def neighborOffsets_def)

lemma isOdd_step: "isOdd (r + 1) = (\<not> isOdd r)" "isOdd (r - 1) = (\<not> isOdd r)"
  unfolding isOdd_def by presburger+

lemma getNeighbors_sym:
  assumes "isValidPos r c" "isValidPos nr nc"
  shows "(nr, nc) \<in> set (getNeighbors r c) \<longleftrightarrow> (r, c) \<in> set (getNeighbors nr nc)"
proof -
  have "isOdd nr = (\<not> isOdd r)" if "nr = r + 1 \<or> nr = r - 1"
    using that isOdd_step by auto
  then show ?thesis
    using assms unfolding getNeighbors_iff by (cases "isOdd r"; cases "isOdd nr"; auto)
qed

text \<open>
  C7. For every coordinate \<open>(r, c)\<close>, \<open>getNeighbors\<close> returns at most 6 coordinates, each
  within the board bounds, and for in-bounds \<open>A\<close> and \<open>B\<close> the relation is symmetric:
  \<open>B\<close> is a neighbour of \<open>A\<close> exactly when \<open>A\<close> is a neighbour of \<open>B\<close>.
\<close>

theorem neighbors6_bounded_symmetric:
  "length (getNeighbors r c) \<le> 6
   \<and> (\<forall>p \<in> set (getNeighbors r c). isValidPos (fst p) (snd p))
   \<and> (isValidPos ar ac \<and> isValidPos br bc \<longrightarrow>
        ((br, bc) \<in> set (getNeighbors ar ac) \<longleftrightarrow> (ar, ac) \<in> set (getNeighbors br bc)))"
  using getNeighbors_length getNeighbors_valid getNeighbors_sym by auto

theorem neighbors6_bounded_symmetric_witness:
  "length (getNeighbors 0 0) \<le> 6
   \<and> isValidPos 0 1 \<and> isValidPos 1 0
   \<and> isValidPos 7 4 \<and> isValidPos 8 4
   \<and> (8, 4) \<in> set (getNeighbors 7 4) \<and> (7, 4) \<in> set (getNeighbors 8 4)"
  using neighbors6_bounded_symmetric [of 0 0 7 4 8 4]
  by (simp add: getNeighbors_iff isValidPos_def isOdd_def board_consts)

section \<open>Grid\<close>

text \<open>
  \<^verbatim>\<open>grid[r][c]\<close> for an in-range cell. Every read of the source is guarded by
  \<^verbatim>\<open>isValidPos\<close> (or by the loop bounds); the theorems below assume a well-formed grid
  (\<open>TOTAL_ROWS\<close> rows of \<open>COLS\<close> cells), the only shape \<^verbatim>\<open>initGame\<close> creates.
\<close>

definition cell :: "Grid \<Rightarrow> int \<Rightarrow> int \<Rightarrow> int" where
  "cell g r c = g ! nat r ! nat c"

definition setCell :: "Grid \<Rightarrow> int \<Rightarrow> int \<Rightarrow> int \<Rightarrow> Grid" where
  "setCell g r c v = g[nat r := (g ! nat r)[nat c := v]]"

definition wfGrid :: "Grid \<Rightarrow> bool" where
  "wfGrid g = (int (length g) = TOTAL_ROWS \<and> list_all (\<lambda>row. int (length row) = COLS) g)"

text \<open>\<^verbatim>\<open>Array.from({ length: TOTAL_ROWS }, () => Array(COLS).fill(EMPTY))\<close> of \<^verbatim>\<open>initGame\<close>.\<close>

definition emptyGrid :: Grid where
  "emptyGrid = replicate (nat TOTAL_ROWS) (replicate (nat COLS) EMPTY)"

section \<open>Active piece\<close>

text \<open>
  Coordinates of the falling piece are JavaScript numbers; they are modelled as reals.
  The values the theorems below compute with (multiples of one half) are exact in
  binary floating point as well.
\<close>

record BallRelative =
  b_dx :: real
  b_dy :: real
  b_color :: int

record FloatingPiece =
  p_x :: real
  p_y :: real
  p_balls :: "BallRelative list"
  p_rotationState :: nat

datatype Dir = CW | CCW

text \<open>
  \<^verbatim>\<open>spawnPiece(colors)\<close>: the piece it builds (the regeneration of the next colours is
  part of the game state, below).
\<close>

definition spawnPiece :: "int list \<Rightarrow> FloatingPiece" where
  "spawnPiece colors =
     \<lparr>p_x = 3.5, p_y = 2.0,
      p_balls = [\<lparr>b_dx = 0, b_dy = 0, b_color = colors ! 0\<rparr>,
                 \<lparr>b_dx = -0.5, b_dy = -1, b_color = colors ! 1\<rparr>,
                 \<lparr>b_dx = 0.5, b_dy = -1, b_color = colors ! 2\<rparr>],
      p_rotationState = 0\<rparr>"

text \<open>
  One iteration of the loop of \<^verbatim>\<open>checkCollision\<close>. \<^verbatim>\<open>Math.round\<close> rounds halves up,
  as \<open>round\<close> does (\<open>round x = \<lfloor>x + 1/2\<rfloor>\<close>).
\<close>

definition ballCollides :: "Grid \<Rightarrow> real \<Rightarrow> real \<Rightarrow> BallRelative \<Rightarrow> bool" where
  "ballCollides g px py b =
     (let r = round (py + b_dy b);
          visualX = px + b_dx b;
          c = \<lfloor>visualX - (if isOdd r then 0.5 else 0)\<rfloor>
      in if r \<ge> TOTAL_ROWS then True
         else if c < 0 \<or> c \<ge> COLS then True
         else if r \<ge> 0 \<and> cell g r c \<noteq> EMPTY then True
         else False)"

definition checkCollision :: "Grid \<Rightarrow> real \<Rightarrow> real \<Rightarrow> BallRelative list \<Rightarrow> bool" where
  "checkCollision g px py bs = list_ex (ballCollides g px py) bs"

text \<open>
  \<^verbatim>\<open>movePiece(dx, dy)\<close> is an updater of the active piece (\<open>None\<close> for \<^verbatim>\<open>null\<close>). The
  result is the new active piece together with the piece handed to \<^verbatim>\<open>lockPiece\<close>, if
  the move locks (the source schedules that call with \<^verbatim>\<open>setTimeout\<close>).
\<close>

definition movePiece ::
  "Grid \<Rightarrow> real \<Rightarrow> real \<Rightarrow> FloatingPiece option \<Rightarrow> FloatingPiece option \<times> FloatingPiece option" where
  "movePiece g dx dy prevOpt =
     (case prevOpt of
        None \<Rightarrow> (None, None)
      | Some prev \<Rightarrow>
          let nextX =
                (if dx \<noteq> 0 \<and> \<not> checkCollision g (p_x prev + dx) (p_y prev) (p_balls prev)
                 then p_x prev + dx else p_x prev)
          in if dy \<noteq> 0 then
               let testY = p_y prev + dy
               in if \<not> checkCollision g nextX testY (p_balls prev)
                  then (Some (prev\<lparr>p_x := nextX, p_y := testY\<rparr>), None)
                  else if dy > 0 then
                    let pushRightX = nextX + 0.5; pushLeftX = nextX - 0.5
                    in if \<not> checkCollision g pushRightX testY (p_balls prev)
                       then (Some (prev\<lparr>p_x := pushRightX, p_y := testY\<rparr>), None)
                       else if \<not> checkCollision g pushLeftX testY (p_balls prev)
                       then (Some (prev\<lparr>p_x := pushLeftX, p_y := testY\<rparr>), None)
                       else (None, Some (prev\<lparr>p_x := nextX, p_y := p_y prev\<rparr>))
                  else (Some (prev\<lparr>p_x := nextX, p_y := p_y prev\<rparr>), None)
             else (Some (prev\<lparr>p_x := nextX, p_y := p_y prev\<rparr>), None))"

definition shape0 :: "(real \<times> real) list" where
  "shape0 = [(0, 0), (-0.5, -1), (0.5, -1)]"

definition shape1 :: "(real \<times> real) list" where
  "shape1 = [(0, -1), (-0.5, 0), (0.5, 0)]"

definition mkBall :: "real \<times> real \<Rightarrow> int \<Rightarrow> BallRelative" where
  "mkBall off col = \<lparr>b_dx = fst off, b_dy = snd off, b_color = col\<rparr>"

definition rotatePiece :: "Grid \<Rightarrow> Dir \<Rightarrow> FloatingPiece option \<Rightarrow> FloatingPiece option" where
  "rotatePiece g dir prevOpt =
     (case prevOpt of
        None \<Rightarrow> None
      | Some prev \<Rightarrow>
          let nextState = (if p_rotationState prev = 0 then 1 else 0);
              b0 = p_balls prev ! 0;
              b1 = p_balls prev ! 1;
              b2 = p_balls prev ! 2;
              targetShape = (if nextState = 0 then shape0 else shape1);
              (c0, c1, c2) =
                (if p_rotationState prev = 0 then
                   (if dir = CW then (b_color b1, b_color b0, b_color b2)
                    else (b_color b2, b_color b1, b_color b0))
                 else
                   (if dir = CW then (b_color b2, b_color b1, b_color b0)
                    else (b_color b1, b_color b0, b_color b2)));
              newBalls = [mkBall (targetShape ! 0) c0, mkBall (targetShape ! 1) c1,
                          mkBall (targetShape ! 2) c2]
          in if checkCollision g (p_x prev) (p_y prev) newBalls then
               (if \<not> checkCollision g (p_x prev - 0.5) (p_y prev) newBalls
                then Some (prev\<lparr>p_x := p_x prev - 0.5, p_balls := newBalls,
                                p_rotationState := nextState\<rparr>)
                else if \<not> checkCollision g (p_x prev + 0.5) (p_y prev) newBalls
                then Some (prev\<lparr>p_x := p_x prev + 0.5, p_balls := newBalls,
                                p_rotationState := nextState\<rparr>)
                else Some prev)
             else Some (prev\<lparr>p_balls := newBalls, p_rotationState := nextState\<rparr>))"

lemma cell_emptyGrid: "isValidPos r c \<Longrightarrow> cell emptyGrid r c = EMPTY"
  by (auto simp: cell_def emptyGrid_def isValidPos_def board_consts split: if_splits)

lemma wfGrid_emptyGrid: "wfGrid emptyGrid"
  by (simp add: wfGrid_def emptyGrid_def list_all_iff board_consts)

lemmas piece_defs =
  rotatePiece_def movePiece_def spawnPiece_def checkCollision_def ballCollides_def
  shape0_def shape1_def mkBall_def isOdd_def isValidPos_def Let_def

subsection \<open>Rotation\<close>

lemma rotate_cw_from_spawn:
  "rotatePiece emptyGrid CW (Some (spawnPiece [c0, c1, c2])) =
     Some \<lparr>p_x = 3.5, p_y = 2,
           p_balls = [mkBall (0, -1) c1, mkBall (-0.5, 0) c0, mkBall (0.5, 0) c2],
           p_rotationState = 1\<rparr>"
  by (simp add: piece_defs cell_emptyGrid board_consts)

lemma rotate_cw_from_state1:
  "rotatePiece emptyGrid CW
      (Some \<lparr>p_x = 3.5, p_y = 2,
             p_balls = [mkBall (0, -1) d0, mkBall (-0.5, 0) d1, mkBall (0.5, 0) d2],
             p_rotationState = 1\<rparr>) =
     Some (spawnPiece [d2, d1, d0])"
  by (simp add: piece_defs cell_emptyGrid board_consts)

text \<open>
  C6 as stated fails: on the empty 9 by 20 grid, two clockwise rotations of the piece
  spawned with colours \<open>0, 1, 2\<close> (slots bottom, top left, top right) give rotation state
  0 again, but with the colours \<open>2, 0, 1\<close> in those slots.
\<close>

theorem rotate_cw_twice_counterexample:
  "rotatePiece emptyGrid CW (rotatePiece emptyGrid CW (Some (spawnPiece [0, 1, 2])))
     = Some (spawnPiece [2, 0, 1])
   \<and> map b_color (p_balls (spawnPiece [2, 0, 1])) = [2, 0, 1]
   \<and> map b_color (p_balls (spawnPiece [0, 1, 2])) = [0, 1, 2]
   \<and> rotatePiece emptyGrid CW (rotatePiece emptyGrid CW (Some (spawnPiece [0, 1, 2])))
     \<noteq> Some (spawnPiece [0, 1, 2])"
  unfolding rotate_cw_from_spawn rotate_cw_from_state1 by (simp add: spawnPiece_def)

text \<open>
  C6, amended. On the empty 9 by 20 grid, a piece spawned at the default anchor in
  rotation state 0 that receives two successive \<^verbatim>\<open>rotate(CW)\<close> commands is again in
  rotation state 0, at the same anchor and with the same three offsets, and its colours
  are moved one slot on: slot 0 holds the colour slot 2 had, slot 1 the colour slot 0
  had, slot 2 the colour slot 1 had (each rotation turns the triangle by 60 degrees).
\<close>

theorem rotate_cw_twice_cycles_colors:
  "rotatePiece emptyGrid CW (rotatePiece emptyGrid CW (Some (spawnPiece [c0, c1, c2])))
     = Some (spawnPiece [c2, c0, c1])
   \<and> p_rotationState (spawnPiece [c2, c0, c1]) = 0
   \<and> map b_color (p_balls (spawnPiece [c2, c0, c1])) = [c2, c0, c1]"
  unfolding rotate_cw_from_spawn rotate_cw_from_state1 by (simp add: spawnPiece_def)

theorem rotate_cw_twice_cycles_colors_witness:
  "rotatePiece emptyGrid CW (rotatePiece emptyGrid CW (Some (spawnPiece [3, 4, 5])))
     = Some (spawnPiece [5, 3, 4])"
  using rotate_cw_twice_cycles_colors [of 3 4 5] by simp

subsection \<open>Movement\<close>

lemma movePiece_horizontal:
  "movePiece g dx 0 (Some p) =
     (Some (p\<lparr>p_x := (if dx \<noteq> 0 \<and> \<not> checkCollision g (p_x p + dx) (p_y p) (p_balls p)
                        then p_x p + dx else p_x p)\<rparr>), None)"
  by (simp add: movePiece_def Let_def)

lemma movePiece_blocked_horizontal:
  "checkCollision g (p_x p + dx) (p_y p) (p_balls p) \<Longrightarrow>
     movePiece g dx dy (Some p) = movePiece g 0 dy (Some p)"
  by (simp add: movePiece_def Let_def)

text \<open>
  C9. A move with \<open>dy = 0\<close> never hands the piece to \<^verbatim>\<open>lockPiece\<close> and keeps it
  active with the same \<open>y\<close>, balls and rotation state; when the new \<open>x\<close> collides, \<open>x\<close>
  is unchanged as well (otherwise it is the new \<open>x\<close>); and for any \<open>dy\<close> a colliding
  horizontal component leaves the move to behave as the purely vertical move
  \<open>(0, dy)\<close>, so the downward component is applied as if no horizontal input was given.
\<close>

theorem horizontal_move_never_locks:
  "snd (movePiece g dx 0 (Some p)) = None
   \<and> (\<exists>p'. fst (movePiece g dx 0 (Some p)) = Some p'
          \<and> p_y p' = p_y p \<and> p_balls p' = p_balls p
          \<and> p_rotationState p' = p_rotationState p
          \<and> (checkCollision g (p_x p + dx) (p_y p) (p_balls p) \<longrightarrow> p_x p' = p_x p)
          \<and> (dx \<noteq> 0 \<and> \<not> checkCollision g (p_x p + dx) (p_y p) (p_balls p)
                \<longrightarrow> p_x p' = p_x p + dx))
   \<and> (checkCollision g (p_x p + dx) (p_y p) (p_balls p) \<longrightarrow>
        movePiece g dx dy (Some p) = movePiece g 0 dy (Some p))"
  using movePiece_blocked_horizontal [of g p dx dy]
  by (simp add: movePiece_horizontal)

text \<open>
  Scenario E of the specification: on the empty grid the spawned shape with its anchor
  at \<open>x = 1\<close> touches the left wall; \<^verbatim>\<open>move(-1, 0)\<close> leaves it where it is, and
  \<^verbatim>\<open>move(-1, 1)\<close> still takes it one row down.
\<close>

theorem horizontal_move_never_locks_witness:
  "checkCollision emptyGrid (p_x ((spawnPiece [0, 1, 2])\<lparr>p_x := 1\<rparr>) + (-1))
      (p_y ((spawnPiece [0, 1, 2])\<lparr>p_x := 1\<rparr>)) (p_balls ((spawnPiece [0, 1, 2])\<lparr>p_x := 1\<rparr>))
   \<and> movePiece emptyGrid (-1) 0 (Some ((spawnPiece [0, 1, 2])\<lparr>p_x := 1\<rparr>))
       = (Some ((spawnPiece [0, 1, 2])\<lparr>p_x := 1\<rparr>), None)
   \<and> movePiece emptyGrid (-1) 1 (Some ((spawnPiece [0, 1, 2])\<lparr>p_x := 1\<rparr>))
       = (Some ((spawnPiece [0, 1, 2])\<lparr>p_x := 1, p_y := 3\<rparr>), None)"
  using horizontal_move_never_locks [of emptyGrid "-1" "(spawnPiece [0, 1, 2])\<lparr>p_x := 1\<rparr>" 1]
  by (simp add: piece_defs cell_emptyGrid board_consts)

section \<open>Gravity\<close>

text \<open>
  \<^verbatim>\<open>runPhysicsStep\<close> works on a copy \<^verbatim>\<open>newGrid\<close> of its argument and a flag
  \<^verbatim>\<open>moved\<close>. The outcomes of \<^verbatim>\<open>Math.random() < 0.5\<close> are a parameter \<open>rnd\<close>:
  \<open>rnd k\<close> is the outcome of the \<open>k\<close>-th call made during the step, and
  \<open>ph_draws\<close> counts the calls made so far. Every theorem holds for all \<open>rnd\<close>.
\<close>

record PhysState =
  ph_grid :: Grid
  ph_moved :: bool
  ph_draws :: nat

definition moveBall :: "Grid \<Rightarrow> Position \<Rightarrow> Position \<Rightarrow> int \<Rightarrow> Grid" where
  "moveBall g dst src color = setCell (setCell g (fst dst) (snd dst) color) (fst src) (snd src) EMPTY"

text \<open>The body of the two nested loops, for the cell \<open>pos = (r, c)\<close>.\<close>

definition fallCell :: "(nat \<Rightarrow> bool) \<Rightarrow> PhysState \<Rightarrow> Position \<Rightarrow> PhysState" where
  "fallCell rnd s pos =
     (let r = fst pos; c = snd pos; newGrid = ph_grid s; color = cell newGrid r c
      in if color = EMPTY then s
         else
           let neighbors = getBottomNeighbors r c;
               dl = neighbors ! 0;
               dr = neighbors ! 1;
               canGoDL = (isValidPos (fst dl) (snd dl) \<and> cell newGrid (fst dl) (snd dl) = EMPTY);
               canGoDR = (isValidPos (fst dr) (snd dr) \<and> cell newGrid (fst dr) (snd dr) = EMPTY)
           in if canGoDL \<and> canGoDR then
                (if rnd (ph_draws s)
                 then \<lparr>ph_grid = moveBall newGrid dl (r, c) color, ph_moved = True,
                       ph_draws = Suc (ph_draws s)\<rparr>
                 else \<lparr>ph_grid = moveBall newGrid dr (r, c) color, ph_moved = True,
                       ph_draws = Suc (ph_draws s)\<rparr>)
              else if canGoDL then s\<lparr>ph_grid := moveBall newGrid dl (r, c) color, ph_moved := True\<rparr>
              else if canGoDR then s\<lparr>ph_grid := moveBall newGrid dr (r, c) color, ph_moved := True\<rparr>
              else s)"

text \<open>
  \<^verbatim>\<open>for (r = TOTAL_ROWS - 2; r >= 0; r--) for (c = 0; c < COLS; c++)\<close>: the cells in
  the order the loops visit them.
\<close>

definition scanOrder :: "Position list" where
  "scanOrder = concat (map (\<lambda>r. map (\<lambda>c. (r, c)) [0..COLS - 1]) (rev [0..TOTAL_ROWS - 2]))"

definition runPhysicsStep :: "(nat \<Rightarrow> bool) \<Rightarrow> Grid \<Rightarrow> Grid \<times> bool" where
  "runPhysicsStep rnd currentGrid =
     (let s = foldl (fallCell rnd) \<lparr>ph_grid = currentGrid, ph_moved = False, ph_draws = 0\<rparr> scanOrder
      in (ph_grid s, ph_moved s))"

text \<open>
  The vocabulary of the claims: a down-neighbour is free when it is in bounds and empty;
  a cell can fall when it holds a ball and one of its two down-neighbours is free; a
  grid is settled when no scanned cell can fall; the balls of a grid are the multiset of
  its non-empty cell values.
\<close>

definition isFree :: "Grid \<Rightarrow> Position \<Rightarrow> bool" where
  "isFree g d = (isValidPos (fst d) (snd d) \<and> cell g (fst d) (snd d) = EMPTY)"

definition canFall :: "Grid \<Rightarrow> Position \<Rightarrow> bool" where
  "canFall g pos =
     (cell g (fst pos) (snd pos) \<noteq> EMPTY \<and>
      list_ex (isFree g) (getBottomNeighbors (fst pos) (snd pos)))"

definition settled :: "Grid \<Rightarrow> bool" where
  "settled g = list_all (\<lambda>pos. \<not> canFall g pos) scanOrder"

definition ballColors :: "Grid \<Rightarrow> int multiset" where
  "ballColors g = filter_mset (\<lambda>v. v \<noteq> EMPTY) (mset (concat g))"


lemma wfGrid_rows: "wfGrid g \<Longrightarrow> isValidPos r c \<Longrightarrow> nat r < length g \<and> nat c < length (g ! nat r)"
proof -
  assume w: "wfGrid g" and v: "isValidPos r c"
  from v have r: "0 \<le> r" "r < TOTAL_ROWS" and c: "0 \<le> c" "c < COLS"
    by (auto simp: isValidPos_def split: if_splits)
  from w have "int (length g) = TOTAL_ROWS" by (simp add: wfGrid_def)
  with r have 1: "nat r < length g" by linarith
  with w have "int (length (g ! nat r)) = COLS" by (simp add: wfGrid_def list_all_length)
  with c have "nat c < length (g ! nat r)" by linarith
  with 1 show ?thesis by simp
qed

lemma wfGrid_setCell: "wfGrid g \<Longrightarrow> wfGrid (setCell g r c v)"
proof (cases "nat r < length g")
  case True
  assume "wfGrid g"
  with True show ?thesis
    by (auto simp: wfGrid_def setCell_def list_all_length nth_list_update)
next
  case False
  assume "wfGrid g"
  with False show ?thesis by (simp add: setCell_def list_update_beyond)
qed

lemma cell_setCell:
  assumes "wfGrid g" "isValidPos r c" "isValidPos r' c'"
  shows "cell (setCell g r c v) r' c' = (if r' = r \<and> c' = c then v else cell g r' c')"
proof -
  have a: "nat r < length g" "nat c < length (g ! nat r)" using wfGrid_rows[OF assms(1,2)] by auto
  have b: "nat r' < length g" "nat c' < length (g ! nat r')" using wfGrid_rows[OF assms(1,3)] by auto
  have n: "nat r' = nat r \<longleftrightarrow> r' = r" "nat c' = nat c \<longleftrightarrow> c' = c"
    using assms(2,3) by (auto simp: isValidPos_def split: if_splits)
  show ?thesis using a b n by (auto simp: cell_def setCell_def nth_list_update)
qed

lemma mset_concat_update:
  assumes "i < length g"
  shows "mset (concat (g[i := row])) + mset (g ! i) = mset (concat g) + mset row"
proof -
  have "concat g = concat (take i g @ (g ! i) # drop (Suc i) g)"
    using assms by (simp add: id_take_nth_drop[symmetric])
  then have 1: "mset (concat g) = mset (concat (take i g)) + mset (g ! i) + mset (concat (drop (Suc i) g))"
    by simp
  have "concat (g[i := row]) = concat (take i g @ row # drop (Suc i) g)"
    using assms by (simp add: upd_conv_take_nth_drop)
  then have 2: "mset (concat (g[i := row])) = mset (concat (take i g)) + mset row + mset (concat (drop (Suc i) g))"
    by simp
  show ?thesis unfolding 1 2 by (simp add: ac_simps)
qed

lemma mset_concat_setCell:
  assumes "wfGrid g" "isValidPos r c"
  shows "mset (concat (setCell g r c v)) + {#cell g r c#} = mset (concat g) + {#v#}"
proof -
  have a: "nat r < length g" "nat c < length (g ! nat r)" using wfGrid_rows[OF assms] by auto
  have 1: "mset ((g ! nat r)[nat c := v]) + {#g ! nat r ! nat c#} = mset (g ! nat r) + {#v#}"
    using a(2) by (simp add: mset_update)
  have 2: "mset (concat (setCell g r c v)) + mset (g ! nat r) = mset (concat g) + mset ((g ! nat r)[nat c := v])"
    unfolding setCell_def using a(1) by (rule mset_concat_update)
  have "mset (concat (setCell g r c v)) + {#cell g r c#} + mset (g ! nat r)
        = mset (concat g) + (mset ((g ! nat r)[nat c := v]) + {#g ! nat r ! nat c#})"
    using 2 by (simp add: cell_def ac_simps)
  also have "\<dots> = mset (concat g) + {#v#} + mset (g ! nat r)"
    unfolding 1 by (simp add: ac_simps)
  finally show ?thesis by simp
qed

lemma mset_concat_moveBall:
  assumes "wfGrid g" "isValidPos (fst d) (snd d)" "isValidPos (fst p) (snd p)" "d \<noteq> p"
    "cell g (fst d) (snd d) = EMPTY" "cell g (fst p) (snd p) = color"
  shows "mset (concat (moveBall g d p color)) = mset (concat g)"
proof -
  let ?g1 = "setCell g (fst d) (snd d) color"
  have 1: "mset (concat ?g1) + {#EMPTY#} = mset (concat g) + {#color#}"
    using mset_concat_setCell[OF assms(1,2), of color] assms(5) by simp
  have w1: "wfGrid ?g1" using assms(1) by (rule wfGrid_setCell)
  have c1: "cell ?g1 (fst p) (snd p) = color"
    using cell_setCell[OF assms(1,2,3), of color] assms(4,6) by (auto simp: prod_eq_iff)
  have 2: "mset (concat (moveBall g d p color)) + {#color#} = mset (concat ?g1) + {#EMPTY#}"
    using mset_concat_setCell[OF w1 assms(3), of EMPTY] c1 by (simp add: moveBall_def)
  show ?thesis using 1 2 by simp
qed


lemma bottom_two: "getBottomNeighbors r c = [getBottomNeighbors r c ! 0, getBottomNeighbors r c ! 1]"
  by (simp add: getBottomNeighbors_def)

lemma canFall_iff:
  "canFall g (r, c) \<longleftrightarrow>
     cell g r c \<noteq> EMPTY \<and>
     (isFree g (getBottomNeighbors r c ! 0) \<or> isFree g (getBottomNeighbors r c ! 1))"
  by (simp add: canFall_def getBottomNeighbors_def)

lemma fallCell_cases:
  fixes s rnd r c
  defines "g \<equiv> ph_grid s" and "dl \<equiv> getBottomNeighbors r c ! 0" and "dr \<equiv> getBottomNeighbors r c ! 1"
  shows "fallCell rnd s (r, c) =
     (if cell g r c = EMPTY \<or> (\<not> isFree g dl \<and> \<not> isFree g dr) then s
      else if isFree g dl \<and> isFree g dr then
        \<lparr>ph_grid = moveBall g (if rnd (ph_draws s) then dl else dr) (r, c) (cell g r c),
         ph_moved = True, ph_draws = Suc (ph_draws s)\<rparr>
      else s\<lparr>ph_grid := moveBall g (if isFree g dl then dl else dr) (r, c) (cell g r c),
              ph_moved := True\<rparr>)"
  unfolding g_def dl_def dr_def by (auto simp: fallCell_def isFree_def Let_def)

lemma fallCell_stay: "\<not> canFall (ph_grid s) pos \<Longrightarrow> fallCell rnd s pos = s"
  by (cases pos) (auto simp: fallCell_cases canFall_iff)

lemma fallCell_moved: "canFall (ph_grid s) pos \<Longrightarrow> ph_moved (fallCell rnd s pos)"
  by (cases pos) (auto simp: fallCell_cases canFall_iff)

lemma fallCell_target:
  assumes "canFall (ph_grid s) (r, c)"
  shows "\<exists>d \<in> set (getBottomNeighbors r c). isFree (ph_grid s) d \<and>
           ph_grid (fallCell rnd s (r, c)) = moveBall (ph_grid s) d (r, c) (cell (ph_grid s) r c)"
proof -
  have m: "getBottomNeighbors r c ! 0 \<in> set (getBottomNeighbors r c)"
          "getBottomNeighbors r c ! 1 \<in> set (getBottomNeighbors r c)"
    by (simp_all add: getBottomNeighbors_def)
  show ?thesis
    using assms m unfolding canFall_iff fallCell_cases by (auto split: if_splits)
qed

lemma scan_unmoved:
  "\<not> ph_moved (foldl (fallCell rnd) s ps) \<longleftrightarrow>
     \<not> ph_moved s \<and> (\<forall>p \<in> set ps. \<not> canFall (ph_grid s) p)"
proof (induction ps arbitrary: s)
  case Nil
  show ?case by simp
next
  case (Cons p ps)
  show ?case
  proof (cases "canFall (ph_grid s) p")
    case False
    then show ?thesis using Cons.IH [of s] by (simp add: fallCell_stay)
  next
    case True
    then have "ph_moved (fallCell rnd s p)" by (rule fallCell_moved)
    then show ?thesis using Cons.IH [of "fallCell rnd s p"] True by simp
  qed
qed

lemma scan_unmoved_same:
  "\<not> ph_moved (foldl (fallCell rnd) s ps) \<Longrightarrow> foldl (fallCell rnd) s ps = s"
proof (induction ps arbitrary: s)
  case Nil
  show ?case by simp
next
  case (Cons p ps)
  have nf: "\<not> canFall (ph_grid s) p" using Cons.prems unfolding scan_unmoved by simp
  then have "fallCell rnd s p = s" by (rule fallCell_stay)
  then show ?case using Cons by simp
qed

lemma scanOrder_iff:
  "(r, c) \<in> set scanOrder \<longleftrightarrow> 0 \<le> r \<and> r \<le> TOTAL_ROWS - 2 \<and> 0 \<le> c \<and> c < COLS"
  by (auto simp: scanOrder_def image_iff)

lemma scanOrder_valid: "p \<in> set scanOrder \<Longrightarrow> isValidPos (fst p) (snd p)"
  by (cases p) (auto simp: scanOrder_iff isValidPos_def board_consts)

lemma settled_iff:
  "settled g \<longleftrightarrow>
     (\<forall>r c. 0 \<le> r \<and> r \<le> TOTAL_ROWS - 2 \<and> 0 \<le> c \<and> c < COLS \<and> cell g r c \<noteq> EMPTY
        \<longrightarrow> \<not> (\<exists>d \<in> set (getBottomNeighbors r c). isFree g d))"
proof -
  have "settled g \<longleftrightarrow> (\<forall>p \<in> set scanOrder. \<not> canFall g p)"
    by (simp add: settled_def list_all_iff)
  also have "\<dots> \<longleftrightarrow> (\<forall>r c. (r, c) \<in> set scanOrder \<longrightarrow> \<not> canFall g (r, c))"
    by auto
  finally show ?thesis
    unfolding scanOrder_iff by (auto simp: canFall_def list_ex_iff)
qed

lemma runPhysicsStep_unmoved: "\<not> snd (runPhysicsStep rnd g) \<longleftrightarrow> settled g"
  by (simp add: runPhysicsStep_def Let_def scan_unmoved settled_def list_all_iff)

lemma runPhysicsStep_unchanged: "\<not> snd (runPhysicsStep rnd g) \<Longrightarrow> fst (runPhysicsStep rnd g) = g"
  using scan_unmoved_same [of rnd "\<lparr>ph_grid = g, ph_moved = False, ph_draws = 0\<rparr>" scanOrder]
  by (simp add: runPhysicsStep_def Let_def)

lemma bottom_ne: "d \<in> set (getBottomNeighbors r c) \<Longrightarrow> d \<noteq> (r, c)"
  by (auto simp: getBottomNeighbors_def split: if_splits)

lemma fallCell_preserves:
  assumes "wfGrid (ph_grid s)" "isValidPos r c"
  shows "wfGrid (ph_grid (fallCell rnd s (r, c))) \<and>
         mset (concat (ph_grid (fallCell rnd s (r, c)))) = mset (concat (ph_grid s))"
proof (cases "canFall (ph_grid s) (r, c)")
  case False
  then show ?thesis using assms by (simp add: fallCell_stay)
next
  case True
  from fallCell_target [OF True, of rnd] obtain d where d:
    "d \<in> set (getBottomNeighbors r c)" "isFree (ph_grid s) d"
    "ph_grid (fallCell rnd s (r, c)) = moveBall (ph_grid s) d (r, c) (cell (ph_grid s) r c)"
    by blast
  have "mset (concat (moveBall (ph_grid s) d (r, c) (cell (ph_grid s) r c))) = mset (concat (ph_grid s))"
    using assms d(2) bottom_ne [OF d(1)]
    by (intro mset_concat_moveBall) (simp_all add: isFree_def)
  moreover have "wfGrid (moveBall (ph_grid s) d (r, c) (cell (ph_grid s) r c))"
    using assms(1) by (simp add: moveBall_def wfGrid_setCell)
  ultimately show ?thesis using d(3) by simp
qed

lemma scan_preserves:
  assumes "wfGrid (ph_grid s)" "\<forall>p \<in> set ps. isValidPos (fst p) (snd p)"
  shows "wfGrid (ph_grid (foldl (fallCell rnd) s ps)) \<and>
         mset (concat (ph_grid (foldl (fallCell rnd) s ps))) = mset (concat (ph_grid s))"
  using assms
proof (induction ps arbitrary: s)
  case Nil
  then show ?case by simp
next
  case (Cons p ps)
  have 1: "wfGrid (ph_grid (fallCell rnd s p)) \<and>
        mset (concat (ph_grid (fallCell rnd s p))) = mset (concat (ph_grid s))"
    using fallCell_preserves [of s "fst p" "snd p" rnd] Cons.prems by simp
  have 2: "\<forall>q \<in> set ps. isValidPos (fst q) (snd q)" using Cons.prems by simp
  show ?case using Cons.IH [of "fallCell rnd s p"] 1 2 by simp
qed

lemma runPhysicsStep_preserves:
  assumes "wfGrid g"
  shows "wfGrid (fst (runPhysicsStep rnd g)) \<and>
         mset (concat (fst (runPhysicsStep rnd g))) = mset (concat g)"
  using scan_preserves [of "\<lparr>ph_grid = g, ph_moved = False, ph_draws = 0\<rparr>" scanOrder rnd]
    assms scanOrder_valid
  by (simp add: runPhysicsStep_def Let_def)


lemma scanOrder_rows_descend: "sorted (rev (map fst scanOrder))"
  by code_simp

lemma moveBall_cells:
  assumes "wfGrid g" "isValidPos (fst d) (snd d)" "isValidPos r c" "isValidPos r' c'" "d \<noteq> (r, c)"
  shows "cell (moveBall g d (r, c) color) r' c' =
           (if (r', c') = (r, c) then EMPTY else if (r', c') = d then color else cell g r' c')"
proof -
  let ?g1 = "setCell g (fst d) (snd d) color"
  have w1: "wfGrid ?g1" using assms(1) by (rule wfGrid_setCell)
  have a: "cell (setCell ?g1 r c EMPTY) r' c' = (if r' = r \<and> c' = c then EMPTY else cell ?g1 r' c')"
    using w1 assms(3,4) by (rule cell_setCell)
  have b: "cell ?g1 r' c' = (if r' = fst d \<and> c' = snd d then color else cell g r' c')"
    using assms(1,2,4) by (rule cell_setCell)
  show ?thesis
    using assms(5) unfolding moveBall_def fst_conv snd_conv a b by (auto simp: prod_eq_iff)
qed

lemma fallCell_wf:
  "wfGrid (ph_grid s) \<Longrightarrow> isValidPos (fst p) (snd p) \<Longrightarrow> wfGrid (ph_grid (fallCell rnd s p))"
  using fallCell_preserves [of s "fst p" "snd p" rnd] by simp

lemma bottom_row: "d \<in> set (getBottomNeighbors r c) \<Longrightarrow> fst d = r + 1"
  by (auto simp: getBottomNeighbors_def split: if_splits)

lemma rows_descend_Cons:
  "sorted (rev (map fst (p # ps))) \<Longrightarrow> sorted (rev (map fst ps)) \<and> (\<forall>q \<in> set ps. fst q \<le> fst p)"
  by (auto simp: sorted_append)

lemma fallCell_move:
  assumes w: "wfGrid (ph_grid s)" and v: "isValidPos (fst p) (snd p)"
    and cf: "canFall (ph_grid s) p"
  shows "\<exists>d \<in> set (getBottomNeighbors (fst p) (snd p)).
           isValidPos (fst d) (snd d) \<and> cell (ph_grid s) (fst d) (snd d) = EMPTY \<and> d \<noteq> p
           \<and> (\<forall>q. isValidPos (fst q) (snd q) \<longrightarrow>
                cell (ph_grid (fallCell rnd s p)) (fst q) (snd q) =
                  (if q = p then EMPTY
                   else if q = d then cell (ph_grid s) (fst p) (snd p)
                   else cell (ph_grid s) (fst q) (snd q)))"
proof -
  obtain r c where p: "p = (r, c)" by (cases p)
  from fallCell_target [of s r c rnd] cf p obtain d where d:
    "d \<in> set (getBottomNeighbors r c)" "isFree (ph_grid s) d"
    "ph_grid (fallCell rnd s (r, c)) = moveBall (ph_grid s) d (r, c) (cell (ph_grid s) r c)"
    by blast
  have vd: "isValidPos (fst d) (snd d)" and ed: "cell (ph_grid s) (fst d) (snd d) = EMPTY"
    using d(2) by (simp_all add: isFree_def)
  have ne: "d \<noteq> (r, c)" using d(1) by (rule bottom_ne)
  have vp: "isValidPos r c" using v p by simp
  have "cell (ph_grid (fallCell rnd s p)) (fst q) (snd q) =
          (if q = p then EMPTY
           else if q = d then cell (ph_grid s) (fst p) (snd p)
           else cell (ph_grid s) (fst q) (snd q))"
    if vq: "isValidPos (fst q) (snd q)" for q
    using moveBall_cells [OF w vd vp vq ne, of "cell (ph_grid s) r c"]
    unfolding p d(3) by (simp add: prod_eq_iff)
  then show ?thesis using d(1) vd ed ne p by auto
qed

lemma scan_keeps_ball:
  assumes "wfGrid (ph_grid s)" "\<forall>p \<in> set ps. isValidPos (fst p) (snd p)"
    "isValidPos (fst q) (snd q)" "q \<notin> set ps" "cell (ph_grid s) (fst q) (snd q) \<noteq> EMPTY"
  shows "cell (ph_grid (foldl (fallCell rnd) s ps)) (fst q) (snd q) = cell (ph_grid s) (fst q) (snd q)"
  using assms
proof (induction ps arbitrary: s)
  case Nil
  show ?case by simp
next
  case (Cons p ps)
  have vp: "isValidPos (fst p) (snd p)" using Cons.prems(2) by simp
  have w1: "wfGrid (ph_grid (fallCell rnd s p))" using Cons.prems(1) vp by (rule fallCell_wf)
  have qp: "q \<noteq> p" using Cons.prems(4) by auto
  have c1: "cell (ph_grid (fallCell rnd s p)) (fst q) (snd q) = cell (ph_grid s) (fst q) (snd q)"
  proof (cases "canFall (ph_grid s) p")
    case False
    then show ?thesis by (simp add: fallCell_stay)
  next
    case True
    from fallCell_move [OF Cons.prems(1) vp True, of rnd] obtain d where
      ed: "cell (ph_grid s) (fst d) (snd d) = EMPTY"
      and cells: "\<forall>q. isValidPos (fst q) (snd q) \<longrightarrow>
                cell (ph_grid (fallCell rnd s p)) (fst q) (snd q) =
                  (if q = p then EMPTY
                   else if q = d then cell (ph_grid s) (fst p) (snd p)
                   else cell (ph_grid s) (fst q) (snd q))"
      by blast
    have "q \<noteq> d" using ed Cons.prems(5) by auto
    then show ?thesis using cells Cons.prems(3) qp by simp
  qed
  have "cell (ph_grid (foldl (fallCell rnd) (fallCell rnd s p) ps)) (fst q) (snd q)
          = cell (ph_grid (fallCell rnd s p)) (fst q) (snd q)"
    using Cons.IH [of "fallCell rnd s p"] w1 Cons.prems c1 by simp
  then show ?case using c1 by simp
qed

lemma scan_moved_fills:
  assumes "wfGrid (ph_grid s)" "\<forall>p \<in> set ps. isValidPos (fst p) (snd p)"
    "sorted (rev (map fst ps))" "\<not> ph_moved s" "ph_moved (foldl (fallCell rnd) s ps)"
  shows "\<exists>d. isValidPos (fst d) (snd d) \<and> cell (ph_grid s) (fst d) (snd d) = EMPTY
            \<and> cell (ph_grid (foldl (fallCell rnd) s ps)) (fst d) (snd d) \<noteq> EMPTY"
  using assms
proof (induction ps arbitrary: s)
  case Nil
  then show ?case by simp
next
  case (Cons p ps)
  have vp: "isValidPos (fst p) (snd p)" and vps: "\<forall>q \<in> set ps. isValidPos (fst q) (snd q)"
    using Cons.prems(2) by simp_all
  have so: "sorted (rev (map fst ps))" and le: "\<forall>q \<in> set ps. fst q \<le> fst p"
    using rows_descend_Cons [OF Cons.prems(3)] by simp_all
  show ?case
  proof (cases "canFall (ph_grid s) p")
    case False
    then have "fallCell rnd s p = s" by (rule fallCell_stay)
    then show ?thesis using Cons.IH [of s] Cons.prems(1,4,5) vps so by simp
  next
    case True
    from fallCell_move [OF Cons.prems(1) vp True, of rnd] obtain d where
      d: "d \<in> set (getBottomNeighbors (fst p) (snd p))"
      and vd: "isValidPos (fst d) (snd d)"
      and ed: "cell (ph_grid s) (fst d) (snd d) = EMPTY" and dp: "d \<noteq> p"
      and cells: "\<forall>q. isValidPos (fst q) (snd q) \<longrightarrow>
                cell (ph_grid (fallCell rnd s p)) (fst q) (snd q) =
                  (if q = p then EMPTY
                   else if q = d then cell (ph_grid s) (fst p) (snd p)
                   else cell (ph_grid s) (fst q) (snd q))"
      by blast
    have ball: "cell (ph_grid s) (fst p) (snd p) \<noteq> EMPTY" using True by (simp add: canFall_def)
    have c1: "cell (ph_grid (fallCell rnd s p)) (fst d) (snd d) \<noteq> EMPTY"
      using cells vd dp ball by simp
    have "fst d = fst p + 1" using d by (rule bottom_row)
    then have dn: "d \<notin> set ps" using le by auto
    have w1: "wfGrid (ph_grid (fallCell rnd s p))" using Cons.prems(1) vp by (rule fallCell_wf)
    have "cell (ph_grid (foldl (fallCell rnd) (fallCell rnd s p) ps)) (fst d) (snd d)
            = cell (ph_grid (fallCell rnd s p)) (fst d) (snd d)"
      using w1 vps vd dn c1 by (rule scan_keeps_ball)
    then show ?thesis using vd ed c1 by (intro exI [of _ d]) simp
  qed
qed

lemma scan_displacement:
  assumes w: "wfGrid (ph_grid s)"
    and v: "\<forall>p \<in> set ps. isValidPos (fst p) (snd p)"
    and di: "distinct ps"
    and so: "sorted (rev (map fst ps))"
  shows "\<exists>f.
      (\<forall>p. f p = p \<or>
            (p \<in> set ps \<and> cell (ph_grid s) (fst p) (snd p) \<noteq> EMPTY
             \<and> f p \<in> set (getBottomNeighbors (fst p) (snd p))
             \<and> isValidPos (fst (f p)) (snd (f p))))
    \<and> inj_on f {p. isValidPos (fst p) (snd p) \<and> cell (ph_grid s) (fst p) (snd p) \<noteq> EMPTY}
    \<and> (\<forall>p. isValidPos (fst p) (snd p) \<and> cell (ph_grid s) (fst p) (snd p) \<noteq> EMPTY \<longrightarrow>
          cell (ph_grid (foldl (fallCell rnd) s ps)) (fst (f p)) (snd (f p))
            = cell (ph_grid s) (fst p) (snd p))
    \<and> (\<forall>q. isValidPos (fst q) (snd q)
            \<and> cell (ph_grid (foldl (fallCell rnd) s ps)) (fst q) (snd q) \<noteq> EMPTY \<longrightarrow>
          (\<exists>p. isValidPos (fst p) (snd p) \<and> cell (ph_grid s) (fst p) (snd p) \<noteq> EMPTY \<and> f p = q))
    \<and> (\<forall>p \<in> set ps. cell (ph_grid s) (fst p) (snd p) \<noteq> EMPTY \<and> f p = p \<longrightarrow>
          \<not> canFall (ph_grid (foldl (fallCell rnd) s ps)) p)
    \<and> (ph_moved (foldl (fallCell rnd) s ps) \<longleftrightarrow>
          ph_moved s \<or>
          (\<exists>p. isValidPos (fst p) (snd p) \<and> cell (ph_grid s) (fst p) (snd p) \<noteq> EMPTY \<and> f p \<noteq> p))"
  using assms
proof (induction ps arbitrary: s)
  case Nil
  show ?case by (rule exI [of _ "\<lambda>p. p"]) simp
next
  case (Cons p0 ps)
  let ?s1 = "fallCell rnd s p0"
  let ?s' = "foldl (fallCell rnd) ?s1 ps"
  have w: "wfGrid (ph_grid s)" by (rule Cons.prems(1))
  have vp: "isValidPos (fst p0) (snd p0)" and vps: "\<forall>q \<in> set ps. isValidPos (fst q) (snd q)"
    using Cons.prems(2) by simp_all
  have so: "sorted (rev (map fst ps))" and le: "\<forall>q \<in> set ps. fst q \<le> fst p0"
    using rows_descend_Cons [OF Cons.prems(4)] by simp_all
  have di: "distinct ps" and pn: "p0 \<notin> set ps" using Cons.prems(3) by simp_all
  have w1: "wfGrid (ph_grid ?s1)" using w vp by (rule fallCell_wf)
  have below: "d \<notin> set ps" if "d \<in> set (getBottomNeighbors (fst p0) (snd p0))" for d
  proof -
    have "fst d = fst p0 + 1" using that by (rule bottom_row)
    then show ?thesis using le by auto
  qed
  from Cons.IH [OF w1 vps di so] obtain f1 where
    f1: "\<forall>p. f1 p = p \<or>
            (p \<in> set ps \<and> cell (ph_grid ?s1) (fst p) (snd p) \<noteq> EMPTY
             \<and> f1 p \<in> set (getBottomNeighbors (fst p) (snd p))
             \<and> isValidPos (fst (f1 p)) (snd (f1 p)))"
    and f2: "inj_on f1 {p. isValidPos (fst p) (snd p) \<and> cell (ph_grid ?s1) (fst p) (snd p) \<noteq> EMPTY}"
    and f3: "\<forall>p. isValidPos (fst p) (snd p) \<and> cell (ph_grid ?s1) (fst p) (snd p) \<noteq> EMPTY \<longrightarrow>
          cell (ph_grid ?s') (fst (f1 p)) (snd (f1 p)) = cell (ph_grid ?s1) (fst p) (snd p)"
    and f4: "\<forall>q. isValidPos (fst q) (snd q) \<and> cell (ph_grid ?s') (fst q) (snd q) \<noteq> EMPTY \<longrightarrow>
          (\<exists>p. isValidPos (fst p) (snd p) \<and> cell (ph_grid ?s1) (fst p) (snd p) \<noteq> EMPTY \<and> f1 p = q)"
    and f5: "\<forall>p \<in> set ps. cell (ph_grid ?s1) (fst p) (snd p) \<noteq> EMPTY \<and> f1 p = p \<longrightarrow>
          \<not> canFall (ph_grid ?s') p"
    and f6: "ph_moved ?s' \<longleftrightarrow>
          ph_moved ?s1 \<or>
          (\<exists>p. isValidPos (fst p) (snd p) \<and> cell (ph_grid ?s1) (fst p) (snd p) \<noteq> EMPTY \<and> f1 p \<noteq> p)"
    by blast
  have f1_fix: "f1 x = x" if "x \<notin> set ps" for x using f1 that by blast
  have fold: "foldl (fallCell rnd) s (p0 # ps) = ?s'" by simp
  show ?case
  proof (cases "canFall (ph_grid s) p0")
    case False
    then have same: "?s1 = s" by (rule fallCell_stay)
    have stay: "\<not> canFall (ph_grid ?s') p0"
      if ball: "cell (ph_grid s) (fst p0) (snd p0) \<noteq> EMPTY"
    proof -
      have nf: "\<not> isFree (ph_grid ?s') d"
        if d: "d \<in> set (getBottomNeighbors (fst p0) (snd p0))" for d
      proof (cases "isValidPos (fst d) (snd d)")
        case False
        then show ?thesis by (simp add: isFree_def)
      next
        case True
        have "\<not> isFree (ph_grid s) d"
          using \<open>\<not> canFall (ph_grid s) p0\<close> ball d by (auto simp: canFall_def list_ex_iff)
        then have b: "cell (ph_grid s) (fst d) (snd d) \<noteq> EMPTY" using True by (simp add: isFree_def)
        have "cell (ph_grid (foldl (fallCell rnd) s ps)) (fst d) (snd d) = cell (ph_grid s) (fst d) (snd d)"
          using w vps True below [OF d] b by (rule scan_keeps_ball)
        then show ?thesis using b same by (simp add: isFree_def)
      qed
      then show ?thesis by (auto simp: canFall_def list_ex_iff)
    qed
    have 5: "\<forall>p \<in> set (p0 # ps). cell (ph_grid s) (fst p) (snd p) \<noteq> EMPTY \<and> f1 p = p \<longrightarrow>
          \<not> canFall (ph_grid ?s') p"
      using f5 stay same by auto
    have 1: "\<forall>p. f1 p = p \<or>
            (p \<in> set (p0 # ps) \<and> cell (ph_grid s) (fst p) (snd p) \<noteq> EMPTY
             \<and> f1 p \<in> set (getBottomNeighbors (fst p) (snd p))
             \<and> isValidPos (fst (f1 p)) (snd (f1 p)))"
      using f1 same by auto
    show ?thesis
      unfolding fold
      apply (rule exI [of _ f1])
      using 1 f2 f3 f4 5 f6 unfolding same by blast
  next
    case True
    from fallCell_move [OF w vp True, of rnd] obtain d where
      d: "d \<in> set (getBottomNeighbors (fst p0) (snd p0))"
      and vd: "isValidPos (fst d) (snd d)"
      and ed: "cell (ph_grid s) (fst d) (snd d) = EMPTY" and dp: "d \<noteq> p0"
      and cells: "\<forall>q. isValidPos (fst q) (snd q) \<longrightarrow>
                cell (ph_grid ?s1) (fst q) (snd q) =
                  (if q = p0 then EMPTY
                   else if q = d then cell (ph_grid s) (fst p0) (snd p0)
                   else cell (ph_grid s) (fst q) (snd q))"
      by blast
    have ball: "cell (ph_grid s) (fst p0) (snd p0) \<noteq> EMPTY" using True by (simp add: canFall_def)
    have m1: "ph_moved ?s1" using True by (rule fallCell_moved)
    have dn: "d \<notin> set ps" using d by (rule below)
    have fd: "f1 d = d" using dn by (rule f1_fix)
    have fp: "f1 p0 = p0" using pn by (rule f1_fix)
    have cd: "cell (ph_grid ?s1) (fst d) (snd d) = cell (ph_grid s) (fst p0) (snd p0)"
      using cells vd dp by simp
    have cp: "cell (ph_grid ?s1) (fst p0) (snd p0) = EMPTY" using cells vp by simp
    have other: "cell (ph_grid ?s1) (fst x) (snd x) = cell (ph_grid s) (fst x) (snd x)"
      if "isValidPos (fst x) (snd x)" "x \<noteq> p0" "x \<noteq> d" for x
      using cells that by simp
    define f where "f = (\<lambda>x. if x = p0 then d else f1 x)"
    have 1: "f p = p \<or>
            (p \<in> set (p0 # ps) \<and> cell (ph_grid s) (fst p) (snd p) \<noteq> EMPTY
             \<and> f p \<in> set (getBottomNeighbors (fst p) (snd p))
             \<and> isValidPos (fst (f p)) (snd (f p)))" for p
    proof (cases "p = p0")
      case True
      then show ?thesis using d vd ball by (simp add: f_def)
    next
      case False
      show ?thesis
      proof (cases "f1 p = p")
        case True
        then show ?thesis using False by (simp add: f_def)
      next
        case nf: False
        then have a: "p \<in> set ps" "cell (ph_grid ?s1) (fst p) (snd p) \<noteq> EMPTY"
          "f1 p \<in> set (getBottomNeighbors (fst p) (snd p))" "isValidPos (fst (f1 p)) (snd (f1 p))"
          using f1 by blast+
        have "p \<noteq> d" using a(1) dn by auto
        then have "cell (ph_grid ?s1) (fst p) (snd p) = cell (ph_grid s) (fst p) (snd p)"
          using other [of p] vps a(1) False by simp
        then show ?thesis using a False by (simp add: f_def)
      qed
    qed
    have in1: "isValidPos (fst x) (snd x) \<and> cell (ph_grid ?s1) (fst x) (snd x) \<noteq> EMPTY"
      if "isValidPos (fst x) (snd x)" "cell (ph_grid s) (fst x) (snd x) \<noteq> EMPTY" "x \<noteq> p0" for x
    proof -
      have "x \<noteq> d" using that(2) ed by auto
      then show ?thesis using other [of x] that by simp
    qed
    have d1: "isValidPos (fst d) (snd d) \<and> cell (ph_grid ?s1) (fst d) (snd d) \<noteq> EMPTY"
      using vd cd ball by simp
    have 2: "inj_on f {p. isValidPos (fst p) (snd p) \<and> cell (ph_grid s) (fst p) (snd p) \<noteq> EMPTY}"
    proof (rule inj_onI)
      fix x y
      assume x: "x \<in> {p. isValidPos (fst p) (snd p) \<and> cell (ph_grid s) (fst p) (snd p) \<noteq> EMPTY}"
        and y: "y \<in> {p. isValidPos (fst p) (snd p) \<and> cell (ph_grid s) (fst p) (snd p) \<noteq> EMPTY}"
        and e: "f x = f y"
      have key: "a = p0" if a: "isValidPos (fst a) (snd a)" "cell (ph_grid s) (fst a) (snd a) \<noteq> EMPTY"
        and fa: "f1 a = d" for a
      proof (rule ccontr)
        assume n: "a \<noteq> p0"
        have "a \<in> {p. isValidPos (fst p) (snd p) \<and> cell (ph_grid ?s1) (fst p) (snd p) \<noteq> EMPTY}"
          using in1 [OF a n] by simp
        moreover have "d \<in> {p. isValidPos (fst p) (snd p) \<and> cell (ph_grid ?s1) (fst p) (snd p) \<noteq> EMPTY}"
          using d1 by simp
        moreover have "f1 a = f1 d" using fa fd by simp
        ultimately have "a = d" using f2 unfolding inj_on_def by blast
        then show False using a(2) ed by simp
      qed
      show "x = y"
      proof (cases "x = p0")
        case True
        show ?thesis
        proof (cases "y = p0")
          case True
          then show ?thesis using \<open>x = p0\<close> by simp
        next
          case False
          then have "f1 y = d" using e True by (simp add: f_def)
          then have "y = p0" using key [of y] y by simp
          then show ?thesis using False by simp
        qed
      next
        case False
        show ?thesis
        proof (cases "y = p0")
          case True
          then have "f1 x = d" using e False by (simp add: f_def)
          then have "x = p0" using key [of x] x by simp
          then show ?thesis using False by simp
        next
          case yn: False
          have "x \<in> {p. isValidPos (fst p) (snd p) \<and> cell (ph_grid ?s1) (fst p) (snd p) \<noteq> EMPTY}"
            using in1 [of x] x False by simp
          moreover have "y \<in> {p. isValidPos (fst p) (snd p) \<and> cell (ph_grid ?s1) (fst p) (snd p) \<noteq> EMPTY}"
            using in1 [of y] y yn by simp
          moreover have "f1 x = f1 y" using e False yn by (simp add: f_def)
          ultimately show ?thesis using f2 unfolding inj_on_def by blast
        qed
      qed
    qed
    have 3: "cell (ph_grid ?s') (fst (f p)) (snd (f p)) = cell (ph_grid s) (fst p) (snd p)"
      if p: "isValidPos (fst p) (snd p) \<and> cell (ph_grid s) (fst p) (snd p) \<noteq> EMPTY" for p
    proof (cases "p = p0")
      case True
      have "cell (ph_grid ?s') (fst (f1 d)) (snd (f1 d)) = cell (ph_grid ?s1) (fst d) (snd d)"
        using f3 d1 by blast
      then show ?thesis using True fd cd by (simp add: f_def)
    next
      case False
      have a: "isValidPos (fst p) (snd p) \<and> cell (ph_grid ?s1) (fst p) (snd p) \<noteq> EMPTY"
        using in1 [of p] p False by simp
      have "p \<noteq> d" using p ed by auto
      then have "cell (ph_grid ?s1) (fst p) (snd p) = cell (ph_grid s) (fst p) (snd p)"
        using other [of p] p False by simp
      moreover have "cell (ph_grid ?s') (fst (f1 p)) (snd (f1 p)) = cell (ph_grid ?s1) (fst p) (snd p)"
        using f3 a by blast
      ultimately show ?thesis using False by (simp add: f_def)
    qed
    have 4: "\<exists>p. isValidPos (fst p) (snd p) \<and> cell (ph_grid s) (fst p) (snd p) \<noteq> EMPTY \<and> f p = q"
      if q: "isValidPos (fst q) (snd q) \<and> cell (ph_grid ?s') (fst q) (snd q) \<noteq> EMPTY" for q
    proof -
      from f4 q obtain x where x: "isValidPos (fst x) (snd x)"
        "cell (ph_grid ?s1) (fst x) (snd x) \<noteq> EMPTY" "f1 x = q" by blast
      show ?thesis
      proof (cases "x = d")
        case True
        then have "f p0 = q" using x(3) fd by (simp add: f_def)
        then show ?thesis using vp ball by blast
      next
        case False
        have xp: "x \<noteq> p0" using x(2) cp by auto
        then have "cell (ph_grid s) (fst x) (snd x) \<noteq> EMPTY" using other [of x] x False by simp
        moreover have "f x = q" using x(3) xp by (simp add: f_def)
        ultimately show ?thesis using x(1) by blast
      qed
    qed
    have 5: "\<not> canFall (ph_grid ?s') p"
      if p: "p \<in> set (p0 # ps)" "cell (ph_grid s) (fst p) (snd p) \<noteq> EMPTY \<and> f p = p" for p
    proof -
      have n: "p \<noteq> p0" using p(2) dp by (auto simp: f_def)
      then have ps: "p \<in> set ps" using p(1) by simp
      then have "p \<noteq> d" using dn by auto
      then have "cell (ph_grid ?s1) (fst p) (snd p) \<noteq> EMPTY"
        using other [of p] vps ps n p(2) by simp
      moreover have "f1 p = p" using p(2) n by (simp add: f_def)
      ultimately show ?thesis using f5 ps by blast
    qed
    have 6: "ph_moved ?s' \<longleftrightarrow>
          ph_moved s \<or>
          (\<exists>p. isValidPos (fst p) (snd p) \<and> cell (ph_grid s) (fst p) (snd p) \<noteq> EMPTY \<and> f p \<noteq> p)"
    proof -
      have "ph_moved ?s'" using f6 m1 by simp
      moreover have "isValidPos (fst p0) (snd p0) \<and> cell (ph_grid s) (fst p0) (snd p0) \<noteq> EMPTY \<and> f p0 \<noteq> p0"
        using vp ball dp by (simp add: f_def)
      ultimately show ?thesis by blast
    qed
    show ?thesis
      unfolding fold
      apply (rule exI [of _ f])
      using 1 2 3 4 5 6 by blast
  qed
qed


lemma scanOrder_distinct: "distinct scanOrder"
  by code_simp

lemma scanOrder_explicit:
  "scanOrder =
     concat (map (\<lambda>r. map (\<lambda>c. (r, c)) [0, 1, 2, 3, 4, 5, 6, 7, 8])
       [18, 17, 16, 15, 14, 13, 12, 11, 10, 9, 8, 7, 6, 5, 4, 3, 2, 1, 0])"
  by code_simp

lemma runPhysicsStep_scan:
  "runPhysicsStep rnd g =
     (ph_grid (foldl (fallCell rnd) \<lparr>ph_grid = g, ph_moved = False, ph_draws = 0\<rparr> scanOrder),
      ph_moved (foldl (fallCell rnd) \<lparr>ph_grid = g, ph_moved = False, ph_draws = 0\<rparr> scanOrder))"
  by (simp add: runPhysicsStep_def Let_def)

lemma runPhysicsStep_changed:
  assumes "wfGrid g"
  shows "snd (runPhysicsStep rnd g) \<longleftrightarrow> fst (runPhysicsStep rnd g) \<noteq> g"
proof
  assume m: "snd (runPhysicsStep rnd g)"
  let ?init = "\<lparr>ph_grid = g, ph_moved = False, ph_draws = 0\<rparr>"
  have "\<exists>d. isValidPos (fst d) (snd d) \<and> cell (ph_grid ?init) (fst d) (snd d) = EMPTY
            \<and> cell (ph_grid (foldl (fallCell rnd) ?init scanOrder)) (fst d) (snd d) \<noteq> EMPTY"
    using assms scanOrder_valid scanOrder_rows_descend m
    by (intro scan_moved_fills) (simp_all add: runPhysicsStep_scan)
  then obtain d where "cell g (fst d) (snd d) = EMPTY"
    "cell (fst (runPhysicsStep rnd g)) (fst d) (snd d) \<noteq> EMPTY"
    by (auto simp: runPhysicsStep_scan)
  then show "fst (runPhysicsStep rnd g) \<noteq> g" by auto
next
  assume "fst (runPhysicsStep rnd g) \<noteq> g"
  then show "snd (runPhysicsStep rnd g)" using runPhysicsStep_unchanged by blast
qed

lemma runPhysicsStep_displacement:
  assumes w: "wfGrid g"
  shows "\<exists>f.
      (\<forall>p. f p = p \<or>
            (p \<in> set scanOrder \<and> cell g (fst p) (snd p) \<noteq> EMPTY
             \<and> f p \<in> set (getBottomNeighbors (fst p) (snd p))
             \<and> isValidPos (fst (f p)) (snd (f p))))
    \<and> inj_on f {p. isValidPos (fst p) (snd p) \<and> cell g (fst p) (snd p) \<noteq> EMPTY}
    \<and> (\<forall>p. isValidPos (fst p) (snd p) \<and> cell g (fst p) (snd p) \<noteq> EMPTY \<longrightarrow>
          cell (fst (runPhysicsStep rnd g)) (fst (f p)) (snd (f p)) = cell g (fst p) (snd p))
    \<and> (\<forall>q. isValidPos (fst q) (snd q)
            \<and> cell (fst (runPhysicsStep rnd g)) (fst q) (snd q) \<noteq> EMPTY \<longrightarrow>
          (\<exists>p. isValidPos (fst p) (snd p) \<and> cell g (fst p) (snd p) \<noteq> EMPTY \<and> f p = q))
    \<and> (\<forall>p \<in> set scanOrder. cell g (fst p) (snd p) \<noteq> EMPTY \<and> f p = p \<longrightarrow>
          \<not> canFall (fst (runPhysicsStep rnd g)) p)
    \<and> (snd (runPhysicsStep rnd g) \<longleftrightarrow>
          (\<exists>p. isValidPos (fst p) (snd p) \<and> cell g (fst p) (snd p) \<noteq> EMPTY \<and> f p \<noteq> p))"
  using scan_displacement [of "\<lparr>ph_grid = g, ph_moved = False, ph_draws = 0\<rparr>" scanOrder rnd]
    w scanOrder_valid scanOrder_distinct scanOrder_rows_descend
  unfolding runPhysicsStep_scan by simp

text \<open>
  C4. For every grid and every resolution \<open>rnd\<close> of the tie-break: the step is the scan
  of the cells of rows \<open>TOTAL_ROWS - 2\<close> down to \<open>0\<close>, lower rows first and each row
  from column 0 to column 8, started on the grid with \<open>moved = false\<close>; at each scanned
  cell the state is left as it is when the cell is empty or neither of its two
  down-neighbours (which depend on the parity of the row) is free (in bounds and empty
  at that moment), and otherwise the ball is moved to a free down-neighbour (the one
  \<open>rnd\<close> picks when both are free) and \<open>moved\<close> is set; the step returns
  \<open>moved = false\<close> exactly when the grid is settled (no non-empty cell above the bottom
  row has a free down-neighbour), and then the grid is returned unchanged.

  On a well-formed grid the returned grid is the given one with some of its balls
  displaced: there is a map \<open>f\<close> of positions that sends every ball either to its own
  cell or, for a ball in a scanned row, to one of its two down-neighbours, in bounds;
  no two balls are sent to the same cell; the returned grid holds at \<open>f p\<close> the colour
  the ball at \<open>p\<close> had and is empty everywhere else; a ball of a scanned row that stays
  has no free down-neighbour in the returned grid; and \<open>moved\<close> is returned true
  exactly when some ball is displaced, which is exactly when the returned grid differs
  from the given one.
\<close>

theorem gravity_step_contract:
  "(let gs = ph_grid s; dl = getBottomNeighbors r c ! 0; dr = getBottomNeighbors r c ! 1
    in fallCell rnd s (r, c) =
         (if cell gs r c = EMPTY \<or> (\<not> isFree gs dl \<and> \<not> isFree gs dr) then s
          else if isFree gs dl \<and> isFree gs dr then
            \<lparr>ph_grid = moveBall gs (if rnd (ph_draws s) then dl else dr) (r, c) (cell gs r c),
             ph_moved = True, ph_draws = Suc (ph_draws s)\<rparr>
          else s\<lparr>ph_grid := moveBall gs (if isFree gs dl then dl else dr) (r, c) (cell gs r c),
                  ph_moved := True\<rparr>))
   \<and> (canFall (ph_grid s) (r, c) \<longrightarrow>
        (\<exists>d \<in> set (getBottomNeighbors r c).
            isValidPos (fst d) (snd d) \<and> cell (ph_grid s) (fst d) (snd d) = EMPTY \<and>
            ph_grid (fallCell rnd s (r, c)) = moveBall (ph_grid s) d (r, c) (cell (ph_grid s) r c)))
   \<and> ((pr, pc) \<in> set scanOrder \<longleftrightarrow> 0 \<le> pr \<and> pr \<le> TOTAL_ROWS - 2 \<and> 0 \<le> pc \<and> pc < COLS)
   \<and> sorted (rev (map fst scanOrder))
   \<and> (\<not> snd (runPhysicsStep rnd g) \<longleftrightarrow> settled g)
   \<and> (\<not> snd (runPhysicsStep rnd g) \<longrightarrow> fst (runPhysicsStep rnd g) = g)
   \<and> (settled g \<longleftrightarrow>
        (\<forall>r c. 0 \<le> r \<and> r \<le> TOTAL_ROWS - 2 \<and> 0 \<le> c \<and> c < COLS \<and> cell g r c \<noteq> EMPTY
           \<longrightarrow> \<not> (\<exists>d \<in> set (getBottomNeighbors r c). isFree g d)))
   \<and> getBottomNeighbors r c =
        (if r mod 2 \<noteq> 0 then [(r + 1, c), (r + 1, c + 1)] else [(r + 1, c - 1), (r + 1, c)])
   \<and> scanOrder =
        concat (map (\<lambda>r. map (\<lambda>c. (r, c)) [0, 1, 2, 3, 4, 5, 6, 7, 8])
          [18, 17, 16, 15, 14, 13, 12, 11, 10, 9, 8, 7, 6, 5, 4, 3, 2, 1, 0])
   \<and> runPhysicsStep rnd g =
        (ph_grid (foldl (fallCell rnd) \<lparr>ph_grid = g, ph_moved = False, ph_draws = 0\<rparr> scanOrder),
         ph_moved (foldl (fallCell rnd) \<lparr>ph_grid = g, ph_moved = False, ph_draws = 0\<rparr> scanOrder))
   \<and> (wfGrid g \<longrightarrow>
        wfGrid (fst (runPhysicsStep rnd g))
        \<and> (snd (runPhysicsStep rnd g) \<longleftrightarrow> fst (runPhysicsStep rnd g) \<noteq> g)
        \<and> (\<exists>f.
             (\<forall>p. f p = p \<or>
                   (p \<in> set scanOrder \<and> cell g (fst p) (snd p) \<noteq> EMPTY
                    \<and> f p \<in> set (getBottomNeighbors (fst p) (snd p))
                    \<and> isValidPos (fst (f p)) (snd (f p))))
             \<and> inj_on f {p. isValidPos (fst p) (snd p) \<and> cell g (fst p) (snd p) \<noteq> EMPTY}
             \<and> (\<forall>p. isValidPos (fst p) (snd p) \<and> cell g (fst p) (snd p) \<noteq> EMPTY \<longrightarrow>
                   cell (fst (runPhysicsStep rnd g)) (fst (f p)) (snd (f p))
                     = cell g (fst p) (snd p))
             \<and> (\<forall>q. isValidPos (fst q) (snd q)
                     \<and> cell (fst (runPhysicsStep rnd g)) (fst q) (snd q) \<noteq> EMPTY \<longrightarrow>
                   (\<exists>p. isValidPos (fst p) (snd p) \<and> cell g (fst p) (snd p) \<noteq> EMPTY
                        \<and> f p = q))
             \<and> (\<forall>p \<in> set scanOrder. cell g (fst p) (snd p) \<noteq> EMPTY \<and> f p = p \<longrightarrow>
                   \<not> canFall (fst (runPhysicsStep rnd g)) p)
             \<and> (snd (runPhysicsStep rnd g) \<longleftrightarrow>
                   (\<exists>p. isValidPos (fst p) (snd p) \<and> cell g (fst p) (snd p) \<noteq> EMPTY
                        \<and> f p \<noteq> p))))"
proof -
  have a1: "(let gs = ph_grid s; dl = getBottomNeighbors r c ! 0; dr = getBottomNeighbors r c ! 1
    in fallCell rnd s (r, c) =
         (if cell gs r c = EMPTY \<or> (\<not> isFree gs dl \<and> \<not> isFree gs dr) then s
          else if isFree gs dl \<and> isFree gs dr then
            \<lparr>ph_grid = moveBall gs (if rnd (ph_draws s) then dl else dr) (r, c) (cell gs r c),
             ph_moved = True, ph_draws = Suc (ph_draws s)\<rparr>
          else s\<lparr>ph_grid := moveBall gs (if isFree gs dl then dl else dr) (r, c) (cell gs r c),
                  ph_moved := True\<rparr>))"
    unfolding Let_def by (rule fallCell_cases)
  have a2: "canFall (ph_grid s) (r, c) \<longrightarrow>
        (\<exists>d \<in> set (getBottomNeighbors r c).
            isValidPos (fst d) (snd d) \<and> cell (ph_grid s) (fst d) (snd d) = EMPTY \<and>
            ph_grid (fallCell rnd s (r, c)) = moveBall (ph_grid s) d (r, c) (cell (ph_grid s) r c))"
    using fallCell_target [of s r c rnd] by (auto simp: isFree_def)
  have a3: "(pr, pc) \<in> set scanOrder \<longleftrightarrow> 0 \<le> pr \<and> pr \<le> TOTAL_ROWS - 2 \<and> 0 \<le> pc \<and> pc < COLS"
    by (rule scanOrder_iff)
  have a5: "\<not> snd (runPhysicsStep rnd g) \<longleftrightarrow> settled g"
    by (rule runPhysicsStep_unmoved)
  have a6: "\<not> snd (runPhysicsStep rnd g) \<longrightarrow> fst (runPhysicsStep rnd g) = g"
    using runPhysicsStep_unchanged by blast
  have a7: "settled g \<longleftrightarrow>
        (\<forall>r c. 0 \<le> r \<and> r \<le> TOTAL_ROWS - 2 \<and> 0 \<le> c \<and> c < COLS \<and> cell g r c \<noteq> EMPTY
           \<longrightarrow> \<not> (\<exists>d \<in> set (getBottomNeighbors r c). isFree g d))"
    by (rule settled_iff)
  have a8: "getBottomNeighbors r c =
        (if r mod 2 \<noteq> 0 then [(r + 1, c), (r + 1, c + 1)] else [(r + 1, c - 1), (r + 1, c)])"
    by (simp add: getBottomNeighbors_def isOdd_def)
  have a11: "wfGrid g \<longrightarrow>
        wfGrid (fst (runPhysicsStep rnd g))
        \<and> (snd (runPhysicsStep rnd g) \<longleftrightarrow> fst (runPhysicsStep rnd g) \<noteq> g)
        \<and> (\<exists>f.
             (\<forall>p. f p = p \<or>
                   (p \<in> set scanOrder \<and> cell g (fst p) (snd p) \<noteq> EMPTY
                    \<and> f p \<in> set (getBottomNeighbors (fst p) (snd p))
                    \<and> isValidPos (fst (f p)) (snd (f p))))
             \<and> inj_on f {p. isValidPos (fst p) (snd p) \<and> cell g (fst p) (snd p) \<noteq> EMPTY}
             \<and> (\<forall>p. isValidPos (fst p) (snd p) \<and> cell g (fst p) (snd p) \<noteq> EMPTY \<longrightarrow>
                   cell (fst (runPhysicsStep rnd g)) (fst (f p)) (snd (f p))
                     = cell g (fst p) (snd p))
             \<and> (\<forall>q. isValidPos (fst q) (snd q)
                     \<and> cell (fst (runPhysicsStep rnd g)) (fst q) (snd q) \<noteq> EMPTY \<longrightarrow>
                   (\<exists>p. isValidPos (fst p) (snd p) \<and> cell g (fst p) (snd p) \<noteq> EMPTY
                        \<and> f p = q))
             \<and> (\<forall>p \<in> set scanOrder. cell g (fst p) (snd p) \<noteq> EMPTY \<and> f p = p \<longrightarrow>
                   \<not> canFall (fst (runPhysicsStep rnd g)) p)
             \<and> (snd (runPhysicsStep rnd g) \<longleftrightarrow>
                   (\<exists>p. isValidPos (fst p) (snd p) \<and> cell g (fst p) (snd p) \<noteq> EMPTY
                        \<and> f p \<noteq> p)))"
  proof (intro impI conjI)
    assume w: "wfGrid g"
    show "wfGrid (fst (runPhysicsStep rnd g))" using runPhysicsStep_preserves [OF w] by simp
    show "snd (runPhysicsStep rnd g) \<longleftrightarrow> fst (runPhysicsStep rnd g) \<noteq> g"
      using w by (rule runPhysicsStep_changed)
    show "\<exists>f.
             (\<forall>p. f p = p \<or>
                   (p \<in> set scanOrder \<and> cell g (fst p) (snd p) \<noteq> EMPTY
                    \<and> f p \<in> set (getBottomNeighbors (fst p) (snd p))
                    \<and> isValidPos (fst (f p)) (snd (f p))))
             \<and> inj_on f {p. isValidPos (fst p) (snd p) \<and> cell g (fst p) (snd p) \<noteq> EMPTY}
             \<and> (\<forall>p. isValidPos (fst p) (snd p) \<and> cell g (fst p) (snd p) \<noteq> EMPTY \<longrightarrow>
                   cell (fst (runPhysicsStep rnd g)) (fst (f p)) (snd (f p))
                     = cell g (fst p) (snd p))
             \<and> (\<forall>q. isValidPos (fst q) (snd q)
                     \<and> cell (fst (runPhysicsStep rnd g)) (fst q) (snd q) \<noteq> EMPTY \<longrightarrow>
                   (\<exists>p. isValidPos (fst p) (snd p) \<and> cell g (fst p) (snd p) \<noteq> EMPTY
                        \<and> f p = q))
             \<and> (\<forall>p \<in> set scanOrder. cell g (fst p) (snd p) \<noteq> EMPTY \<and> f p = p \<longrightarrow>
                   \<not> canFall (fst (runPhysicsStep rnd g)) p)
             \<and> (snd (runPhysicsStep rnd g) \<longleftrightarrow>
                   (\<exists>p. isValidPos (fst p) (snd p) \<and> cell g (fst p) (snd p) \<noteq> EMPTY
                        \<and> f p \<noteq> p))"
      using w by (rule runPhysicsStep_displacement)
  qed
  show ?thesis
    apply (intro conjI)
              apply (rule a1)
             apply (rule a2)
            apply (rule a3)
           apply (rule scanOrder_rows_descend)
          apply (rule a5)
         apply (rule a6)
        apply (rule a7)
       apply (rule a8)
      apply (rule scanOrder_explicit)
     apply (rule runPhysicsStep_scan)
    apply (rule a11)
    done
qed

lemma fallCell_example:
  "fallCell (\<lambda>_. True) \<lparr>ph_grid = setCell emptyGrid 3 4 2, ph_moved = False, ph_draws = 0\<rparr> (3, 4)
     = \<lparr>ph_grid = setCell emptyGrid 4 4 2, ph_moved = True, ph_draws = 1\<rparr>"
  by code_simp

lemma settled_example: "settled (setCell emptyGrid 19 4 2)"
  by code_simp

lemma canFall_example: "canFall (setCell emptyGrid 3 4 2) (3, 4)"
  by code_simp

lemma wfGrid_example: "wfGrid (setCell emptyGrid 3 4 2)"
  by code_simp

lemma step_example:
  "runPhysicsStep (\<lambda>_. True) (setCell emptyGrid 3 4 2) = (setCell emptyGrid 4 4 2, True)"
  "setCell emptyGrid 4 4 2 \<noteq> setCell emptyGrid 3 4 2"
  by code_simp+

text \<open>
  A ball alone on the bottom row: the grid is settled, the step reports no movement and
  returns the grid as it was. A ball alone at row 3, column 4 with both down-neighbours
  free: it can fall, and with the tie-break resolved to the first branch it moves to
  the first down-neighbour \<open>(4, 4)\<close>; the step on that grid reports movement and returns
  the grid with the ball at \<open>(4, 4)\<close>, which differs from the given one.
\<close>

theorem gravity_step_contract_witness:
  "settled (setCell emptyGrid 19 4 2)
   \<and> \<not> snd (runPhysicsStep (\<lambda>_. True) (setCell emptyGrid 19 4 2))
   \<and> fst (runPhysicsStep (\<lambda>_. True) (setCell emptyGrid 19 4 2)) = setCell emptyGrid 19 4 2
   \<and> canFall (setCell emptyGrid 3 4 2) (3, 4)
   \<and> fallCell (\<lambda>_. True) \<lparr>ph_grid = setCell emptyGrid 3 4 2, ph_moved = False, ph_draws = 0\<rparr> (3, 4)
       = \<lparr>ph_grid = setCell emptyGrid 4 4 2, ph_moved = True, ph_draws = 1\<rparr>
   \<and> wfGrid (setCell emptyGrid 3 4 2)
   \<and> runPhysicsStep (\<lambda>_. True) (setCell emptyGrid 3 4 2) = (setCell emptyGrid 4 4 2, True)
   \<and> fst (runPhysicsStep (\<lambda>_. True) (setCell emptyGrid 3 4 2)) \<noteq> setCell emptyGrid 3 4 2"
proof -
  note tA = gravity_step_contract [where s = "\<lparr>ph_grid = setCell emptyGrid 3 4 2, ph_moved = False, ph_draws = 0\<rparr>"
      and r = 3 and c = 4 and rnd = "\<lambda>_. True" and pr = 0 and pc = 0
      and g = "setCell emptyGrid 19 4 2"]
  note tB = gravity_step_contract [where s = "\<lparr>ph_grid = setCell emptyGrid 3 4 2, ph_moved = False, ph_draws = 0\<rparr>"
      and r = 3 and c = 4 and rnd = "\<lambda>_. True" and pr = 0 and pc = 0
      and g = "setCell emptyGrid 3 4 2"]
  note tA5 = tA [THEN conjunct2, THEN conjunct2, THEN conjunct2, THEN conjunct2]
  note tB11 = tB [THEN conjunct2, THEN conjunct2, THEN conjunct2, THEN conjunct2, THEN conjunct2,
      THEN conjunct2, THEN conjunct2, THEN conjunct2, THEN conjunct2, THEN conjunct2]
  have a: "\<not> snd (runPhysicsStep (\<lambda>_. True) (setCell emptyGrid 19 4 2))"
    using tA5 [THEN conjunct1] settled_example by simp
  have b: "fst (runPhysicsStep (\<lambda>_. True) (setCell emptyGrid 19 4 2)) = setCell emptyGrid 19 4 2"
    using tA5 [THEN conjunct2, THEN conjunct1] a by simp
  have c: "snd (runPhysicsStep (\<lambda>_. True) (setCell emptyGrid 3 4 2))
             \<longleftrightarrow> fst (runPhysicsStep (\<lambda>_. True) (setCell emptyGrid 3 4 2)) \<noteq> setCell emptyGrid 3 4 2"
    using tB11 wfGrid_example by blast
  have d: "fst (runPhysicsStep (\<lambda>_. True) (setCell emptyGrid 3 4 2)) \<noteq> setCell emptyGrid 3 4 2"
    using c step_example(1) by simp
  show ?thesis
    using a b d settled_example canFall_example fallCell_example wfGrid_example step_example(1)
    by simp
qed

text \<open>
  C10. For every well-formed grid and every resolution \<open>rnd\<close> of the tie-break, one
  gravity step returns a well-formed grid with the same multiset of cell values, hence
  the same multiset of ball colours; and a single move, on a well-formed grid, writes
  the ball's colour into a cell that was empty, empties the source cell, and changes no
  other cell.
\<close>

theorem gravity_step_preserves_balls:
  "wfGrid g \<longrightarrow>
     wfGrid (fst (runPhysicsStep rnd g))
     \<and> mset (concat (fst (runPhysicsStep rnd g))) = mset (concat g)
     \<and> ballColors (fst (runPhysicsStep rnd g)) = ballColors g
     \<and> (\<forall>r c. isValidPos r c \<and> canFall g (r, c) \<longrightarrow>
          (\<exists>d \<in> set (getBottomNeighbors r c).
             isValidPos (fst d) (snd d) \<and> cell g (fst d) (snd d) = EMPTY \<and>
             (\<forall>r' c'. isValidPos r' c' \<longrightarrow>
                cell (ph_grid (fallCell rnd \<lparr>ph_grid = g, ph_moved = m, ph_draws = k\<rparr> (r, c))) r' c' =
                  (if (r', c') = (r, c) then EMPTY
                   else if (r', c') = d then cell g r c
                   else cell g r' c'))))"
proof (intro impI conjI allI)
  assume w: "wfGrid g"
  show "wfGrid (fst (runPhysicsStep rnd g))"
    using runPhysicsStep_preserves [OF w] by simp
  show m: "mset (concat (fst (runPhysicsStep rnd g))) = mset (concat g)"
    using runPhysicsStep_preserves [OF w] by simp
  show "ballColors (fst (runPhysicsStep rnd g)) = ballColors g"
    unfolding ballColors_def m ..
next
  fix r c
  assume w: "wfGrid g" and h: "isValidPos r c \<and> canFall g (r, c)"
  let ?s = "\<lparr>ph_grid = g, ph_moved = m, ph_draws = k\<rparr>"
  from h fallCell_target [of ?s r c rnd] obtain d where d:
    "d \<in> set (getBottomNeighbors r c)" "isFree g d"
    "ph_grid (fallCell rnd ?s (r, c)) = moveBall g d (r, c) (cell g r c)"
    by auto
  have v: "isValidPos (fst d) (snd d)" "cell g (fst d) (snd d) = EMPTY"
    using d(2) by (simp_all add: isFree_def)
  have "\<forall>r' c'. isValidPos r' c' \<longrightarrow>
          cell (ph_grid (fallCell rnd ?s (r, c))) r' c' =
            (if (r', c') = (r, c) then EMPTY else if (r', c') = d then cell g r c else cell g r' c')"
    unfolding d(3) using moveBall_cells [OF w v(1) _ _ bottom_ne [OF d(1)]] h by blast
  with d(1) v
  show "\<exists>d \<in> set (getBottomNeighbors r c).
          isValidPos (fst d) (snd d) \<and> cell g (fst d) (snd d) = EMPTY \<and>
          (\<forall>r' c'. isValidPos r' c' \<longrightarrow>
             cell (ph_grid (fallCell rnd ?s (r, c))) r' c' =
               (if (r', c') = (r, c) then EMPTY else if (r', c') = d then cell g r c else cell g r' c'))"
    by blast
qed

lemma ballColors_example: "ballColors (setCell emptyGrid 3 4 2) = {#2#}"
  by code_simp

theorem gravity_step_preserves_balls_witness:
  "wfGrid (setCell emptyGrid 3 4 2)
   \<and> wfGrid (fst (runPhysicsStep (\<lambda>_. False) (setCell emptyGrid 3 4 2)))
   \<and> ballColors (fst (runPhysicsStep (\<lambda>_. False) (setCell emptyGrid 3 4 2))) = {#2#}"
  using gravity_step_preserves_balls [of "setCell emptyGrid 3 4 2" "\<lambda>_. False"]
    wfGrid_example ballColors_example
  by simp

section \<open>Match detection\<close>

text \<open>
  The detector of \<^verbatim>\<open>src/6ball.tsx\<close>. Its sets of keys \<^verbatim>\<open>`${r},${c}`\<close> are sets of
  positions here (the key of a position determines it). Where the source iterates over
  a set only to return \<^verbatim>\<open>true\<close> at the first member that passes a test, the model
  asks whether some member passes it.
\<close>

text \<open>\<^verbatim>\<open>for (r = 0; r < TOTAL_ROWS; r++) for (c = 0; c < COLS; c++)\<close>: row-major order.\<close>

definition allCells :: "Position list" where
  "allCells = concat (map (\<lambda>r. map (\<lambda>c. (r, c)) [0..COLS - 1]) [0..TOTAL_ROWS - 1])"

text \<open>The grid argument of \<^verbatim>\<open>hasHexagonInGroup\<close> is not used by the source either.\<close>

definition hasHexagonInGroup :: "Position set \<Rightarrow> Grid \<Rightarrow> bool" where
  "hasHexagonInGroup groupSet grid =
     list_ex (\<lambda>pos. let neighbors = getNeighbors (fst pos) (snd pos)
                    in length neighbors = 6 \<and> list_all (\<lambda>n. n \<in> groupSet) neighbors)
       allCells"

datatype PyramidDir = UP | DOWN

text \<open>The loop that drops repeated candidates, keeping first occurrences in order.\<close>

definition uniquePoints :: "Position list \<Rightarrow> Position list" where
  "uniquePoints cands = foldl (\<lambda>pts p. if p \<in> set pts then pts else pts @ [p]) [] cands"

definition checkPyramidStructure :: "int \<Rightarrow> int \<Rightarrow> Position set \<Rightarrow> PyramidDir \<Rightarrow> bool" where
  "checkPyramidStructure r c groupSet dir =
     (let getNext = (if dir = DOWN then getBottomNeighbors else getTopNeighbors);
          row2 = getNext r c
      in if length row2 \<noteq> 2 then False
         else if \<not> list_all (\<lambda>p. p \<in> groupSet) row2 then False
         else
           let row3Candidates = getNext (fst (row2 ! 0)) (snd (row2 ! 0))
                                @ getNext (fst (row2 ! 1)) (snd (row2 ! 1));
               row3Points = uniquePoints row3Candidates
           in if length row3Points \<noteq> 3 then False
              else if \<not> list_all (\<lambda>p. p \<in> groupSet) row3Points then False
              else True)"

definition hasPyramidInGroup :: "Position set \<Rightarrow> bool" where
  "hasPyramidInGroup groupSet =
     (\<exists>key \<in> groupSet.
        checkPyramidStructure (fst key) (snd key) groupSet DOWN
        \<or> checkPyramidStructure (fst key) (snd key) groupSet UP)"

text \<open>
  The three counting loops of \<^verbatim>\<open>hasStraightInGroup\<close>; each stops at the first cell
  that is not in the group and makes at most five steps.
\<close>

definition horizontalCount :: "Position set \<Rightarrow> int \<Rightarrow> int \<Rightarrow> nat" where
  "horizontalCount groupSet startR startC =
     1 + length (takeWhile (\<lambda>k. (startR, startC + k) \<in> groupSet) [1..5])"

fun diagonalSteps :: "Position set \<Rightarrow> nat \<Rightarrow> nat \<Rightarrow> Position \<Rightarrow> nat" where
  "diagonalSteps groupSet side 0 cur = 0"
| "diagonalSteps groupSet side (Suc n) cur =
     (let nxt = getBottomNeighbors (fst cur) (snd cur) ! side
      in if nxt \<in> groupSet then 1 + diagonalSteps groupSet side n nxt else 0)"

definition hasStraightInGroup :: "Position set \<Rightarrow> bool" where
  "hasStraightInGroup groupSet =
     (\<exists>key \<in> groupSet.
        horizontalCount groupSet (fst key) (snd key) \<ge> 6
        \<or> 1 + diagonalSteps groupSet 1 5 key \<ge> 6
        \<or> 1 + diagonalSteps groupSet 0 5 key \<ge> 6)"

subsection \<open>Connected groups\<close>

record BfsState =
  bfs_queue :: "Position list"
  bfs_group :: "Position list"
  bfs_visitedLocal :: "Position set"
  bfs_visitedGlobal :: "Position set"

text \<open>The body of \<^verbatim>\<open>for (const n of neighbors)\<close> in \<^verbatim>\<open>getConnectedGroup\<close>.\<close>

definition visitNeighbor :: "Grid \<Rightarrow> int \<Rightarrow> BfsState \<Rightarrow> Position \<Rightarrow> BfsState" where
  "visitNeighbor grid color s n =
     (if n \<notin> bfs_visitedGlobal s \<and> n \<notin> bfs_visitedLocal s \<and> cell grid (fst n) (snd n) = color
      then s\<lparr>bfs_queue := bfs_queue s @ [n], bfs_group := bfs_group s @ [n],
             bfs_visitedLocal := insert n (bfs_visitedLocal s),
             bfs_visitedGlobal := insert n (bfs_visitedGlobal s)\<rparr>
      else s)"

definition expand :: "Grid \<Rightarrow> int \<Rightarrow> BfsState \<Rightarrow> Position \<Rightarrow> Position list \<Rightarrow> BfsState" where
  "expand grid color s cur rest =
     foldl (visitNeighbor grid color) (s\<lparr>bfs_queue := rest\<rparr>) (getNeighbors (fst cur) (snd cur))"

lemma visitNeighbor_grows:
  "visitNeighbor grid color s n = s \<or>
     bfs_visitedGlobal (visitNeighbor grid color s n) = insert n (bfs_visitedGlobal s)
       \<and> n \<notin> bfs_visitedGlobal s"
  by (simp add: visitNeighbor_def)

lemma visit_fold_mono:
  "bfs_visitedGlobal s \<subseteq> bfs_visitedGlobal (foldl (visitNeighbor grid color) s ns)"
proof (induction ns arbitrary: s)
  case Nil
  show ?case by simp
next
  case (Cons n ns)
  have "bfs_visitedGlobal s \<subseteq> bfs_visitedGlobal (visitNeighbor grid color s n)"
    by (auto simp: visitNeighbor_def)
  then show ?case using Cons.IH [of "visitNeighbor grid color s n"] by auto
qed

lemma visit_fold_bound:
  "bfs_visitedGlobal (foldl (visitNeighbor grid color) s ns) \<subseteq> bfs_visitedGlobal s \<union> set ns"
proof (induction ns arbitrary: s)
  case Nil
  show ?case by simp
next
  case (Cons n ns)
  have "bfs_visitedGlobal (visitNeighbor grid color s n) \<subseteq> insert n (bfs_visitedGlobal s)"
    by (auto simp: visitNeighbor_def)
  then show ?case using Cons.IH [of "visitNeighbor grid color s n"] by auto
qed

lemma visit_fold_same_or_grows:
  "foldl (visitNeighbor grid color) s ns = s \<or>
     bfs_visitedGlobal s \<subset> bfs_visitedGlobal (foldl (visitNeighbor grid color) s ns)"
proof (induction ns arbitrary: s)
  case Nil
  show ?case by simp
next
  case (Cons n ns)
  show ?case
  proof (cases "visitNeighbor grid color s n = s")
    case True
    then show ?thesis using Cons.IH [of s] by simp
  next
    case False
    then have "bfs_visitedGlobal s \<subset> bfs_visitedGlobal (visitNeighbor grid color s n)"
      using visitNeighbor_grows [of grid color s n] by auto
    moreover have "bfs_visitedGlobal (visitNeighbor grid color s n)
        \<subseteq> bfs_visitedGlobal (foldl (visitNeighbor grid color) (visitNeighbor grid color s n) ns)"
      by (rule visit_fold_mono)
    ultimately show ?thesis by auto
  qed
qed

lemma allCells_iff: "(r, c) \<in> set allCells \<longleftrightarrow> isValidPos r c"
  by (auto simp: allCells_def isValidPos_def image_iff)

lemma getNeighbors_allCells: "set (getNeighbors r c) \<subseteq> set allCells"
  using getNeighbors_valid by (auto simp: allCells_iff)

lemma expand_measure:
  assumes "bfs_queue s = cur # rest"
  shows "(card (set allCells - bfs_visitedGlobal (expand grid color s cur rest))
            < card (set allCells - bfs_visitedGlobal s))
         \<or> (card (set allCells - bfs_visitedGlobal (expand grid color s cur rest))
              = card (set allCells - bfs_visitedGlobal s)
            \<and> length (bfs_queue (expand grid color s cur rest)) < length (bfs_queue s))"
proof -
  let ?s0 = "s\<lparr>bfs_queue := rest\<rparr>"
  let ?ns = "getNeighbors (fst cur) (snd cur)"
  let ?s' = "foldl (visitNeighbor grid color) ?s0 ?ns"
  have e: "expand grid color s cur rest = ?s'" by (simp add: expand_def)
  from visit_fold_same_or_grows [of grid color ?s0 ?ns]
  show ?thesis
  proof
    assume "?s' = ?s0"
    then show ?thesis using assms unfolding e by simp
  next
    assume g: "bfs_visitedGlobal ?s0 \<subset> bfs_visitedGlobal ?s'"
    then obtain x where x: "x \<in> bfs_visitedGlobal ?s'" "x \<notin> bfs_visitedGlobal s" by auto
    have "x \<in> set ?ns" using x visit_fold_bound [of grid color ?s0 ?ns] by auto
    then have xa: "x \<in> set allCells" using getNeighbors_allCells by blast
    have "set allCells - bfs_visitedGlobal ?s' \<subset> set allCells - bfs_visitedGlobal s"
      using g x xa by auto
    then have "card (set allCells - bfs_visitedGlobal ?s') < card (set allCells - bfs_visitedGlobal s)"
      by (intro psubset_card_mono) auto
    then show ?thesis unfolding e by simp
  qed
qed

text \<open>
  \<^verbatim>\<open>while (queue.length > 0) { cur = queue.shift(); ... }\<close>. The loop ends: a round
  either marks a new board cell visited or shortens the queue.
\<close>

function bfsLoop :: "Grid \<Rightarrow> int \<Rightarrow> BfsState \<Rightarrow> BfsState" where
  "bfsLoop grid color s =
     (case bfs_queue s of
        [] \<Rightarrow> s
      | cur # rest \<Rightarrow> bfsLoop grid color (expand grid color s cur rest))"
  by pat_completeness auto
termination
proof (relation "measures [\<lambda>(grid, color, s). card (set allCells - bfs_visitedGlobal s),
                           \<lambda>(grid, color, s). length (bfs_queue s)]", goal_cases)
  case 1
  show ?case by simp
next
  case (2 grid color s cur rest)
  then show ?case using expand_measure [of s cur rest grid color] by auto
qed

declare bfsLoop.simps [simp del]

definition getConnectedGroup ::
  "int \<Rightarrow> int \<Rightarrow> Grid \<Rightarrow> Position set \<Rightarrow> Position list \<times> Position set" where
  "getConnectedGroup startR startC grid visitedGlobal =
     (let color = cell grid startR startC;
          s = bfsLoop grid color
                \<lparr>bfs_queue = [(startR, startC)], bfs_group = [(startR, startC)],
                 bfs_visitedLocal = {(startR, startC)},
                 bfs_visitedGlobal = insert (startR, startC) visitedGlobal\<rparr>
      in (bfs_group s, bfs_visitedGlobal s))"

subsection \<open>The detection pass\<close>

text \<open>
  The labels shown to the player (Japanese strings in the source) are a datatype;
  \<open>NoCombo\<close> is the empty string \<^verbatim>\<open>maxComboName\<close> starts with.
\<close>

datatype ComboName = NoCombo | MatchCombo | StraightCombo | PyramidCombo | HexagonCombo

record MatchState =
  ms_nextGrid :: Grid
  ms_totalPoints :: int
  ms_visitedGlobal :: "Position set"
  ms_maxComboName :: ComboName
  ms_maxPriority :: int

text \<open>The chain of shape checks: bonus points, label and priority of a group.\<close>

definition classifyGroup :: "Position set \<Rightarrow> Grid \<Rightarrow> int \<times> ComboName \<times> int" where
  "classifyGroup groupSet grid =
     (if hasHexagonInGroup groupSet grid then (1000, HexagonCombo, 3)
      else if hasPyramidInGroup groupSet then (800, PyramidCombo, 2)
      else if hasStraightInGroup groupSet then (500, StraightCombo, 1)
      else (0, MatchCombo, 0))"

text \<open>\<^verbatim>\<open>group.forEach(p => { nextGrid[p.r][p.c] = EMPTY; })\<close>\<close>

definition clearGroup :: "Grid \<Rightarrow> Position list \<Rightarrow> Grid" where
  "clearGroup grid grp = foldl (\<lambda>g p. setCell g (fst p) (snd p) EMPTY) grid grp"

text \<open>The body of the two nested loops of \<^verbatim>\<open>checkMatches\<close>, for the cell \<open>pos\<close>.\<close>

definition matchCell :: "MatchState \<Rightarrow> Position \<Rightarrow> MatchState" where
  "matchCell s pos =
     (let r = fst pos; c = snd pos
      in if cell (ms_nextGrid s) r c = EMPTY \<or> (r, c) \<in> ms_visitedGlobal s then s
         else
           let (grp, visited) = getConnectedGroup r c (ms_nextGrid s) (ms_visitedGlobal s)
           in if length grp \<ge> 6 then
                let groupSet = set grp;
                    (points, comboName, priority) = classifyGroup groupSet (ms_nextGrid s);
                    ballPoints = int (length grp) * 100 + (int (length grp) - 6) * 50
                in \<lparr>ms_nextGrid = clearGroup (ms_nextGrid s) grp,
                    ms_totalPoints = ms_totalPoints s + (ballPoints + points),
                    ms_visitedGlobal = visited,
                    ms_maxComboName =
                      (if priority > ms_maxPriority s then comboName else ms_maxComboName s),
                    ms_maxPriority =
                      (if priority > ms_maxPriority s then priority else ms_maxPriority s)\<rparr>
              else s\<lparr>ms_visitedGlobal := visited\<rparr>)"

definition checkMatchesState :: "Grid \<Rightarrow> MatchState" where
  "checkMatchesState currentGrid =
     foldl matchCell
       \<lparr>ms_nextGrid = currentGrid, ms_totalPoints = 0, ms_visitedGlobal = {},
        ms_maxComboName = NoCombo, ms_maxPriority = -1\<rparr>
       allCells"

definition checkMatches :: "Grid \<Rightarrow> Grid \<times> int" where
  "checkMatches currentGrid =
     (let s = checkMatchesState currentGrid in (ms_nextGrid s, ms_totalPoints s))"

subsection \<open>What the breadth-first search computes\<close>

text \<open>
  The neighbours one round of the loop adds, given the set \<open>V\<close> of positions already
  marked (globally or locally): those of the right colour not yet marked, each once.
\<close>

fun freshNeighbors :: "Grid \<Rightarrow> int \<Rightarrow> Position set \<Rightarrow> Position list \<Rightarrow> Position list" where
  "freshNeighbors grid color V [] = []"
| "freshNeighbors grid color V (n # ns) =
     (if n \<notin> V \<and> cell grid (fst n) (snd n) = color
      then n # freshNeighbors grid color (insert n V) ns
      else freshNeighbors grid color V ns)"

text \<open>The steps the search can take from the marked set \<open>V0\<close> it starts with.\<close>

definition bfsEdge :: "Grid \<Rightarrow> int \<Rightarrow> Position set \<Rightarrow> (Position \<times> Position) set" where
  "bfsEdge grid color V0 =
     {(x, y). y \<in> set (getNeighbors (fst x) (snd x)) \<and> y \<notin> V0
              \<and> cell grid (fst y) (snd y) = color}"

definition bfsInv :: "Grid \<Rightarrow> int \<Rightarrow> Position set \<Rightarrow> Position \<Rightarrow> BfsState \<Rightarrow> bool" where
  "bfsInv grid color V0 start s \<longleftrightarrow>
     set (bfs_queue s) \<subseteq> set (bfs_group s)
     \<and> start \<in> set (bfs_group s)
     \<and> set (bfs_group s) \<subseteq> (bfsEdge grid color V0)\<^sup>* `` {start}
     \<and> bfs_visitedGlobal s = V0 \<union> set (bfs_group s)
     \<and> bfs_visitedLocal s \<subseteq> bfs_visitedGlobal s
     \<and> distinct (bfs_group s)
     \<and> set (bfs_group s) \<inter> V0 = {}
     \<and> (\<forall>x \<in> set (bfs_group s) - set (bfs_queue s).
          \<forall>y. (x, y) \<in> bfsEdge grid color V0 \<longrightarrow> y \<in> set (bfs_group s))"

lemma set_freshNeighbors:
  "set (freshNeighbors grid color V ns) =
     {n \<in> set ns. n \<notin> V \<and> cell grid (fst n) (snd n) = color}"
  by (induction ns arbitrary: V) auto

lemma distinct_freshNeighbors: "distinct (freshNeighbors grid color V ns)"
  by (induction ns arbitrary: V) (auto simp: set_freshNeighbors)

lemma visit_fold_eq:
  "foldl (visitNeighbor grid color) s ns =
     (let F = freshNeighbors grid color (bfs_visitedGlobal s \<union> bfs_visitedLocal s) ns
      in s\<lparr>bfs_queue := bfs_queue s @ F, bfs_group := bfs_group s @ F,
            bfs_visitedLocal := bfs_visitedLocal s \<union> set F,
            bfs_visitedGlobal := bfs_visitedGlobal s \<union> set F\<rparr>)"
proof (induction ns arbitrary: s)
  case Nil
  show ?case by simp
next
  case (Cons n ns)
  show ?case
  proof (cases "n \<notin> bfs_visitedGlobal s \<and> n \<notin> bfs_visitedLocal s
                \<and> cell grid (fst n) (snd n) = color")
    case True
    then have v: "visitNeighbor grid color s n =
        s\<lparr>bfs_queue := bfs_queue s @ [n], bfs_group := bfs_group s @ [n],
          bfs_visitedLocal := insert n (bfs_visitedLocal s),
          bfs_visitedGlobal := insert n (bfs_visitedGlobal s)\<rparr>"
      by (simp add: visitNeighbor_def)
    have u: "insert n (bfs_visitedGlobal s) \<union> insert n (bfs_visitedLocal s)
             = insert n (bfs_visitedGlobal s \<union> bfs_visitedLocal s)"
      by auto
    show ?thesis
      using True by (simp add: Cons.IH v u Let_def)
  next
    case False
    then have v: "visitNeighbor grid color s n = s"
      by (auto simp: visitNeighbor_def)
    show ?thesis
      using False by (auto simp: Cons.IH v Let_def)
  qed
qed

lemma expand_inv:
  assumes inv: "bfsInv grid color V0 start s" and q: "bfs_queue s = cur # rest"
  shows "bfsInv grid color V0 start (expand grid color s cur rest)"
proof -
  let ?E = "bfsEdge grid color V0"
  let ?ns = "getNeighbors (fst cur) (snd cur)"
  define F where "F = freshNeighbors grid color (bfs_visitedGlobal s \<union> bfs_visitedLocal s) ?ns"
  have vl: "bfs_visitedGlobal s \<union> bfs_visitedLocal s = V0 \<union> set (bfs_group s)"
    using inv by (auto simp: bfsInv_def)
  have setF: "set F = {n \<in> set ?ns. n \<notin> V0 \<union> set (bfs_group s) \<and> cell grid (fst n) (snd n) = color}"
    unfolding F_def set_freshNeighbors vl ..
  have dF: "distinct F" unfolding F_def by (rule distinct_freshNeighbors)
  have e: "expand grid color s cur rest =
      s\<lparr>bfs_queue := rest @ F, bfs_group := bfs_group s @ F,
        bfs_visitedLocal := bfs_visitedLocal s \<union> set F,
        bfs_visitedGlobal := bfs_visitedGlobal s \<union> set F\<rparr>"
    unfolding expand_def visit_fold_eq F_def by (simp add: Let_def)
  have curg: "cur \<in> set (bfs_group s)" using inv q by (auto simp: bfsInv_def)
  have curr: "(start, cur) \<in> ?E\<^sup>*" using inv curg by (auto simp: bfsInv_def)
  have FE: "\<And>n. n \<in> set F \<Longrightarrow> (cur, n) \<in> ?E"
    unfolding setF bfsEdge_def by auto
  have 1: "set (rest @ F) \<subseteq> set (bfs_group s @ F)"
    using inv q by (auto simp: bfsInv_def)
  have 2: "start \<in> set (bfs_group s @ F)" using inv by (auto simp: bfsInv_def)
  have 3: "set (bfs_group s @ F) \<subseteq> ?E\<^sup>* `` {start}"
  proof
    fix x assume "x \<in> set (bfs_group s @ F)"
    then consider "x \<in> set (bfs_group s)" | "x \<in> set F" by auto
    then show "x \<in> ?E\<^sup>* `` {start}"
    proof cases
      case 1
      then show ?thesis using inv by (auto simp: bfsInv_def)
    next
      case 2
      then have "(cur, x) \<in> ?E" by (rule FE)
      with curr have "(start, x) \<in> ?E\<^sup>*" by (rule rtrancl_into_rtrancl)
      then show ?thesis by simp
    qed
  qed
  have 4: "bfs_visitedGlobal s \<union> set F = V0 \<union> set (bfs_group s @ F)"
    using inv by (auto simp: bfsInv_def)
  have 5: "bfs_visitedLocal s \<union> set F \<subseteq> bfs_visitedGlobal s \<union> set F"
    using inv by (auto simp: bfsInv_def)
  have 6: "distinct (bfs_group s @ F)"
    using inv dF setF by (auto simp: bfsInv_def)
  have 7: "set (bfs_group s @ F) \<inter> V0 = {}"
    using inv setF by (auto simp: bfsInv_def)
  have 8: "\<forall>x \<in> set (bfs_group s @ F) - set (rest @ F).
             \<forall>y. (x, y) \<in> ?E \<longrightarrow> y \<in> set (bfs_group s @ F)"
  proof (intro ballI allI impI)
    fix x y
    assume x: "x \<in> set (bfs_group s @ F) - set (rest @ F)" and xy: "(x, y) \<in> ?E"
    then have xg: "x \<in> set (bfs_group s)" "x \<notin> set rest" by auto
    show "y \<in> set (bfs_group s @ F)"
    proof (cases "x = cur")
      case True
      then have "y \<in> set ?ns" "y \<notin> V0" "cell grid (fst y) (snd y) = color"
        using xy by (auto simp: bfsEdge_def)
      then show ?thesis unfolding set_append setF by auto
    next
      case False
      then have "x \<in> set (bfs_group s) - set (bfs_queue s)" using xg q by auto
      then have "y \<in> set (bfs_group s)" using inv xy unfolding bfsInv_def by blast
      then show ?thesis by simp
    qed
  qed
  show ?thesis
    unfolding e bfsInv_def using 1 2 3 4 5 6 7 8 by simp
qed

lemma bfsLoop_inv:
  "bfsInv grid color V0 start s \<Longrightarrow>
     bfsInv grid color V0 start (bfsLoop grid color s) \<and> bfs_queue (bfsLoop grid color s) = []"
proof (induction grid color s rule: bfsLoop.induct)
  case (1 grid color s)
  show ?case
  proof (cases "bfs_queue s")
    case Nil
    then show ?thesis using "1.prems" by (subst (1 2) bfsLoop.simps) simp
  next
    case (Cons cur rest)
    have "bfsInv grid color V0 start (expand grid color s cur rest)"
      using "1.prems" Cons by (rule expand_inv)
    then have "bfsInv grid color V0 start (bfsLoop grid color (expand grid color s cur rest))
        \<and> bfs_queue (bfsLoop grid color (expand grid color s cur rest)) = []"
      using "1.IH" [OF Cons] by simp
    then show ?thesis using Cons by (subst (1 2) bfsLoop.simps) simp
  qed
qed

lemma bfsInv_closed:
  assumes "bfsInv grid color V0 start s" "bfs_queue s = []"
  shows "set (bfs_group s) = (bfsEdge grid color V0)\<^sup>* `` {start}"
proof
  show "set (bfs_group s) \<subseteq> (bfsEdge grid color V0)\<^sup>* `` {start}"
    using assms by (simp add: bfsInv_def)
next
  have "y \<in> set (bfs_group s)" if "(start, y) \<in> (bfsEdge grid color V0)\<^sup>*" for y
    using that
  proof (induction rule: rtrancl_induct)
    case base
    show ?case using assms by (simp add: bfsInv_def)
  next
    case (step y z)
    from step.IH assms(2) have "y \<in> set (bfs_group s) - set (bfs_queue s)" by simp
    then show ?case using assms(1) step.hyps(2) unfolding bfsInv_def by blast
  qed
  then show "(bfsEdge grid color V0)\<^sup>* `` {start} \<subseteq> set (bfs_group s)" by auto
qed

lemma getConnectedGroup_correct:
  assumes "(r, c) \<notin> V0"
  shows "set (fst (getConnectedGroup r c grid V0)) = (bfsEdge grid (cell grid r c) V0)\<^sup>* `` {(r, c)}
         \<and> distinct (fst (getConnectedGroup r c grid V0))
         \<and> snd (getConnectedGroup r c grid V0) = V0 \<union> set (fst (getConnectedGroup r c grid V0))"
proof -
  let ?init = "\<lparr>bfs_queue = [(r, c)], bfs_group = [(r, c)], bfs_visitedLocal = {(r, c)},
              bfs_visitedGlobal = insert (r, c) V0\<rparr>"
  let ?s = "bfsLoop grid (cell grid r c) ?init"
  have "bfsInv grid (cell grid r c) V0 (r, c) ?init"
    using assms by (simp add: bfsInv_def)
  then have i: "bfsInv grid (cell grid r c) V0 (r, c) ?s" and q: "bfs_queue ?s = []"
    using bfsLoop_inv by blast+
  have "set (bfs_group ?s) = (bfsEdge grid (cell grid r c) V0)\<^sup>* `` {(r, c)}"
    using i q by (rule bfsInv_closed)
  moreover have "distinct (bfs_group ?s)" "bfs_visitedGlobal ?s = V0 \<union> set (bfs_group ?s)"
    using i by (simp_all add: bfsInv_def)
  ultimately show ?thesis by (simp add: getConnectedGroup_def Let_def)
qed

subsection \<open>Connected same-colour groups\<close>

text \<open>
  The specification's notion, not taken from the code: two cells are linked when one is
  a board cell, the other is one of its (at most six) neighbours and both hold the same
  value; the group of a cell is everything reachable from it through links. For a
  non-empty cell this is its maximal connected monochrome group. The eligible groups
  of a grid are the groups of its non-empty board cells that have at least 6 members.
\<close>

definition sameColorAdj :: "Grid \<Rightarrow> (Position \<times> Position) set" where
  "sameColorAdj g =
     {(x, y). isValidPos (fst x) (snd x) \<and> y \<in> set (getNeighbors (fst x) (snd x))
              \<and> cell g (fst y) (snd y) = cell g (fst x) (snd x)}"

definition component :: "Grid \<Rightarrow> Position \<Rightarrow> Position set" where
  "component g p = (sameColorAdj g)\<^sup>* `` {p}"

definition eligibleGroups :: "Grid \<Rightarrow> Position set set" where
  "eligibleGroups g =
     component g ` {p \<in> set allCells. cell g (fst p) (snd p) \<noteq> EMPTY \<and> 6 \<le> card (component g p)}"

lemma sameColorAdj_sym: "sym (sameColorAdj g)"
proof (rule symI)
  fix x y assume a: "(x, y) \<in> sameColorAdj g"
  then have vx: "isValidPos (fst x) (snd x)" and n: "(fst y, snd y) \<in> set (getNeighbors (fst x) (snd x))"
    and col: "cell g (fst y) (snd y) = cell g (fst x) (snd x)"
    by (auto simp: sameColorAdj_def)
  have vy: "isValidPos (fst y) (snd y)" using n by (rule getNeighbors_valid)
  have "(fst x, snd x) \<in> set (getNeighbors (fst y) (snd y))"
    using getNeighbors_sym [OF vx vy] n by simp
  then show "(y, x) \<in> sameColorAdj g"
    using vy col by (simp add: sameColorAdj_def)
qed

lemma component_refl: "p \<in> component g p"
  by (simp add: component_def)

lemma component_sym: "q \<in> component g p \<Longrightarrow> p \<in> component g q"
  using sym_rtrancl [OF sameColorAdj_sym, of g] unfolding component_def sym_def by blast

lemma component_trans: "q \<in> component g p \<Longrightarrow> x \<in> component g q \<Longrightarrow> x \<in> component g p"
  by (auto simp: component_def)

lemma component_eq: "q \<in> component g p \<Longrightarrow> component g q = component g p"
  using component_sym component_trans by blast

lemma component_color:
  "q \<in> component g p \<Longrightarrow> cell g (fst q) (snd q) = cell g (fst p) (snd p)"
proof -
  assume "q \<in> component g p"
  then have "(p, q) \<in> (sameColorAdj g)\<^sup>*" by (simp add: component_def)
  then show ?thesis
    by (induction rule: rtrancl_induct) (auto simp: sameColorAdj_def)
qed

lemma component_valid:
  "q \<in> component g p \<Longrightarrow> isValidPos (fst p) (snd p) \<Longrightarrow> isValidPos (fst q) (snd q)"
proof -
  assume "q \<in> component g p" and v: "isValidPos (fst p) (snd p)"
  then have "(p, q) \<in> (sameColorAdj g)\<^sup>*" by (simp add: component_def)
  then show ?thesis
  proof (induction rule: rtrancl_induct)
    case base
    show ?case by (rule v)
  next
    case (step y z)
    then have "(fst z, snd z) \<in> set (getNeighbors (fst y) (snd y))"
      by (simp add: sameColorAdj_def)
    then show ?case by (rule getNeighbors_valid)
  qed
qed

lemma component_subset: "component g p \<subseteq> insert p (set allCells)"
proof
  fix q assume "q \<in> component g p"
  then have "(p, q) \<in> (sameColorAdj g)\<^sup>*" by (simp add: component_def)
  then show "q \<in> insert p (set allCells)"
  proof (induction rule: rtrancl_induct)
    case base
    show ?case by simp
  next
    case (step y z)
    then have "z \<in> set (getNeighbors (fst y) (snd y))" by (simp add: sameColorAdj_def)
    then show ?case using getNeighbors_allCells by blast
  qed
qed

lemma finite_component: "finite (component g p)"
  using component_subset by (rule finite_subset) simp

lemma component_step:
  "x \<in> component g p \<Longrightarrow> (x, y) \<in> sameColorAdj g \<Longrightarrow> y \<in> component g p"
  by (auto simp: component_def)

subsection \<open>The invariant of the scan\<close>

definition seenBy :: "Grid \<Rightarrow> Position list \<Rightarrow> Position set" where
  "seenBy g ps = (\<Union>q \<in> {q \<in> set ps. cell g (fst q) (snd q) \<noteq> EMPTY}. component g q)"

definition groupsBy :: "Grid \<Rightarrow> Position list \<Rightarrow> Position set set" where
  "groupsBy g ps =
     component g ` {q \<in> set ps. cell g (fst q) (snd q) \<noteq> EMPTY \<and> 6 \<le> card (component g q)}"

text \<open>What one eligible group adds to the total, as \<^verbatim>\<open>checkMatches\<close> computes it.\<close>

definition groupScore :: "Grid \<Rightarrow> Position set \<Rightarrow> int" where
  "groupScore g C = int (card C) * 100 + (int (card C) - 6) * 50 + fst (classifyGroup C g)"

definition scanInv :: "Grid \<Rightarrow> Position list \<Rightarrow> MatchState \<Rightarrow> bool" where
  "scanInv g ps s \<longleftrightarrow>
     wfGrid (ms_nextGrid s)
     \<and> ms_visitedGlobal s = seenBy g ps
     \<and> (\<forall>r c. isValidPos r c \<longrightarrow>
          cell (ms_nextGrid s) r c =
            (if (r, c) \<in> seenBy g ps \<and> 6 \<le> card (component g (r, c)) then EMPTY else cell g r c))
     \<and> ms_totalPoints s = (\<Sum>C \<in> groupsBy g ps. groupScore g C)"

lemma classifyGroup_grid: "classifyGroup C g1 = classifyGroup C g2"
  by (simp add: classifyGroup_def hasHexagonInGroup_def)

lemma groupScore_grid: "groupScore g1 C = groupScore g2 C"
  using classifyGroup_grid [of C g1 g2] by (simp add: groupScore_def)

lemma seenBy_color:
  "x \<in> seenBy g ps \<Longrightarrow> cell g (fst x) (snd x) \<noteq> EMPTY"
  using component_color by (auto simp: seenBy_def)

lemma seenBy_component:
  assumes "x \<in> seenBy g ps"
  shows "component g x \<subseteq> seenBy g ps"
proof -
  from assms obtain q where q: "q \<in> set ps" "cell g (fst q) (snd q) \<noteq> EMPTY" "x \<in> component g q"
    by (auto simp: seenBy_def)
  have "component g x = component g q" using q(3) by (rule component_eq)
  then show ?thesis using q(1,2) by (auto simp: seenBy_def)
qed

lemma seenBy_disjoint:
  assumes "p \<notin> seenBy g ps"
  shows "component g p \<inter> seenBy g ps = {}"
proof (rule ccontr)
  assume "component g p \<inter> seenBy g ps \<noteq> {}"
  then obtain x where x: "x \<in> component g p" "x \<in> seenBy g ps" by auto
  have "p \<in> component g x" using x(1) by (rule component_sym)
  then show False using seenBy_component [OF x(2)] assms by auto
qed

lemma seenBy_snoc_old:
  assumes "cell g (fst p) (snd p) = EMPTY \<or> p \<in> seenBy g ps"
  shows "seenBy g (ps @ [p]) = seenBy g ps"
proof (cases "cell g (fst p) (snd p) = EMPTY")
  case True
  then show ?thesis by (auto simp: seenBy_def)
next
  case False
  then have "p \<in> seenBy g ps" using assms by simp
  then have "component g p \<subseteq> seenBy g ps" by (rule seenBy_component)
  then show ?thesis by (auto simp: seenBy_def)
qed

lemma seenBy_snoc_new:
  assumes "cell g (fst p) (snd p) \<noteq> EMPTY"
  shows "seenBy g (ps @ [p]) = seenBy g ps \<union> component g p"
  using assms by (auto simp: seenBy_def)

lemma groupsBy_snoc_old:
  assumes "cell g (fst p) (snd p) = EMPTY \<or> p \<in> seenBy g ps"
  shows "groupsBy g (ps @ [p]) = groupsBy g ps"
proof (cases "cell g (fst p) (snd p) = EMPTY")
  case True
  then show ?thesis by (auto simp: groupsBy_def)
next
  case False
  then have "p \<in> seenBy g ps" using assms by simp
  then obtain q where q: "q \<in> set ps" "cell g (fst q) (snd q) \<noteq> EMPTY" "p \<in> component g q"
    by (auto simp: seenBy_def)
  have e: "component g p = component g q" using q(3) by (rule component_eq)
  have "component g p \<in> groupsBy g ps" if "6 \<le> card (component g p)"
    using that q(1,2) unfolding e groupsBy_def by auto
  then show ?thesis by (auto simp: groupsBy_def)
qed

lemma groupsBy_snoc_new:
  assumes "cell g (fst p) (snd p) \<noteq> EMPTY"
  shows "groupsBy g (ps @ [p]) =
           (if 6 \<le> card (component g p) then insert (component g p) (groupsBy g ps)
            else groupsBy g ps)"
  using assms by (auto simp: groupsBy_def)

lemma groupsBy_subset_seen: "C \<in> groupsBy g ps \<Longrightarrow> C \<subseteq> seenBy g ps"
  by (auto simp: groupsBy_def seenBy_def)

lemma finite_groupsBy: "finite (groupsBy g ps)"
  by (simp add: groupsBy_def)

lemma clearGroup_wf: "wfGrid g \<Longrightarrow> wfGrid (clearGroup g grp)"
  unfolding clearGroup_def
  by (induction grp arbitrary: g) (simp_all add: wfGrid_setCell)

lemma clearGroup_cell:
  assumes "wfGrid g" "\<forall>p \<in> set grp. isValidPos (fst p) (snd p)" "isValidPos r c"
  shows "cell (clearGroup g grp) r c = (if (r, c) \<in> set grp then EMPTY else cell g r c)"
  using assms(1,2) unfolding clearGroup_def
proof (induction grp arbitrary: g)
  case Nil
  show ?case by simp
next
  case (Cons p grp)
  let ?g1 = "setCell g (fst p) (snd p) EMPTY"
  have w1: "wfGrid ?g1" using Cons.prems(1) by (rule wfGrid_setCell)
  have vp: "isValidPos (fst p) (snd p)" using Cons.prems(2) by simp
  have c1: "cell ?g1 r c = (if r = fst p \<and> c = snd p then EMPTY else cell g r c)"
    using Cons.prems(1) vp assms(3) by (rule cell_setCell)
  have "cell (foldl (\<lambda>g p. setCell g (fst p) (snd p) EMPTY) ?g1 grp) r c =
          (if (r, c) \<in> set grp then EMPTY else cell ?g1 r c)"
    using Cons.IH [OF w1] Cons.prems(2) by simp
  then show ?case unfolding c1 by (auto simp: prod_eq_iff)
qed

lemma bfs_is_component:
  assumes inv: "scanInv g ps s" and v: "isValidPos (fst p) (snd p)"
    and new: "p \<notin> seenBy g ps"
  shows "(bfsEdge (ms_nextGrid s) (cell (ms_nextGrid s) (fst p) (snd p)) (seenBy g ps))\<^sup>* `` {p}
           = component g p"
proof -
  let ?V = "seenBy g ps"
  let ?N = "ms_nextGrid s"
  let ?col = "cell ?N (fst p) (snd p)"
  let ?E = "bfsEdge ?N ?col ?V"
  have same: "cell ?N (fst y) (snd y) = cell g (fst y) (snd y)"
    if "isValidPos (fst y) (snd y)" "y \<notin> ?V" for y
    using inv that unfolding scanInv_def by (metis prod.collapse)
  have col: "?col = cell g (fst p) (snd p)" using same [OF v new] .
  have dis: "component g p \<inter> ?V = {}" using new by (rule seenBy_disjoint)
  have 1: "y \<in> component g p" if "(p, y) \<in> ?E\<^sup>*" for y
    using that
  proof (induction rule: rtrancl_induct)
    case base
    show ?case by (rule component_refl)
  next
    case (step x y)
    have n: "y \<in> set (getNeighbors (fst x) (snd x))" and nv: "y \<notin> ?V"
      and yc: "cell ?N (fst y) (snd y) = ?col"
      using step.hyps(2) by (auto simp: bfsEdge_def)
    have vy: "isValidPos (fst y) (snd y)" using n getNeighbors_valid [of "fst y" "snd y"] by simp
    have vx: "isValidPos (fst x) (snd x)" using step.IH v by (rule component_valid)
    have "cell g (fst y) (snd y) = cell g (fst x) (snd x)"
      using same [OF vy nv] yc col component_color [OF step.IH] by simp
    then have "(x, y) \<in> sameColorAdj g" using vx n by (simp add: sameColorAdj_def)
    with step.IH show ?case by (rule component_step)
  qed
  have 2: "(p, y) \<in> ?E\<^sup>*" if "(p, y) \<in> (sameColorAdj g)\<^sup>*" for y
    using that
  proof (induction rule: rtrancl_induct)
    case base
    show ?case by simp
  next
    case (step x y)
    have yin: "y \<in> component g p"
      using step.hyps(1,2) by (auto simp: component_def)
    have xin: "x \<in> component g p" using step.hyps(1) by (simp add: component_def)
    have n: "y \<in> set (getNeighbors (fst x) (snd x))"
      using step.hyps(2) by (simp add: sameColorAdj_def)
    have vy: "isValidPos (fst y) (snd y)" using n getNeighbors_valid [of "fst y" "snd y"] by simp
    have nv: "y \<notin> ?V" using yin dis by auto
    have "cell ?N (fst y) (snd y) = ?col"
      using same [OF vy nv] col component_color [OF yin] by simp
    then have "(x, y) \<in> ?E" using n nv by (simp add: bfsEdge_def)
    with step.IH show ?case by (rule rtrancl_into_rtrancl)
  qed
  show ?thesis using 1 2 by (auto simp: component_def)
qed

lemma matchCell_inv:
  assumes inv: "scanInv g ps s" and v: "isValidPos (fst p) (snd p)"
  shows "scanInv g (ps @ [p]) (matchCell s p)"
proof -
  let ?V = "seenBy g ps"
  let ?N = "ms_nextGrid s"
  let ?C = "component g p"
  have wfN: "wfGrid ?N" and vis: "ms_visitedGlobal s = ?V"
    and cells: "\<And>r c. isValidPos r c \<Longrightarrow>
          cell ?N r c = (if (r, c) \<in> ?V \<and> 6 \<le> card (component g (r, c)) then EMPTY else cell g r c)"
    and pts: "ms_totalPoints s = (\<Sum>C \<in> groupsBy g ps. groupScore g C)"
    using inv by (simp_all add: scanInv_def)
  show ?thesis
  proof (cases "cell ?N (fst p) (snd p) = EMPTY \<or> p \<in> ?V")
    case True
    have m: "matchCell s p = s" using True vis by (auto simp: matchCell_def Let_def)
    have "cell g (fst p) (snd p) = EMPTY \<or> p \<in> ?V"
      using True cells [OF v] by (auto split: if_splits)
    then have "seenBy g (ps @ [p]) = ?V" "groupsBy g (ps @ [p]) = groupsBy g ps"
      by (rule seenBy_snoc_old, rule groupsBy_snoc_old)
    then show ?thesis unfolding m using inv by (simp add: scanInv_def)
  next
    case False
    then have ne: "cell ?N (fst p) (snd p) \<noteq> EMPTY" and new: "p \<notin> ?V" by auto
    have pc: "cell ?N (fst p) (snd p) = cell g (fst p) (snd p)"
      using cells [OF v] new by simp
    then have gne: "cell g (fst p) (snd p) \<noteq> EMPTY" using ne by simp
    obtain grp visited where gc:
      "getConnectedGroup (fst p) (snd p) ?N (ms_visitedGlobal s) = (grp, visited)"
      by (cases "getConnectedGroup (fst p) (snd p) ?N (ms_visitedGlobal s)") auto
    have new': "(fst p, snd p) \<notin> ?V" using new by simp
    from getConnectedGroup_correct [OF new', of ?N] gc vis
    have "set grp = (bfsEdge ?N (cell ?N (fst p) (snd p)) ?V)\<^sup>* `` {p}"
      and dist: "distinct grp" and visd: "visited = ?V \<union> set grp"
      by simp_all
    then have sg: "set grp = ?C" using bfs_is_component [OF inv v new] by simp
    have len: "length grp = card ?C" using dist sg distinct_card [of grp] by simp
    have seen': "seenBy g (ps @ [p]) = ?V \<union> ?C" using gne by (rule seenBy_snoc_new)
    have dis: "?C \<inter> ?V = {}" using new by (rule seenBy_disjoint)
    have gv: "\<forall>q \<in> set grp. isValidPos (fst q) (snd q)"
      unfolding sg using component_valid [OF _ v] by blast
    show ?thesis
    proof (cases "6 \<le> length grp")
      case True
      obtain points comboName priority where cl: "classifyGroup (set grp) ?N = (points, comboName, priority)"
        by (cases "classifyGroup (set grp) ?N") auto
      have m: "matchCell s p =
          \<lparr>ms_nextGrid = clearGroup ?N grp,
           ms_totalPoints = ms_totalPoints s + (int (length grp) * 100 + (int (length grp) - 6) * 50 + points),
           ms_visitedGlobal = visited,
           ms_maxComboName = (if priority > ms_maxPriority s then comboName else ms_maxComboName s),
           ms_maxPriority = (if priority > ms_maxPriority s then priority else ms_maxPriority s)\<rparr>"
        using False True vis gc cl by (simp add: matchCell_def Let_def)
      have gs: "groupScore g ?C = int (length grp) * 100 + (int (length grp) - 6) * 50 + points"
        using cl classifyGroup_grid [of ?C g ?N] by (simp add: groupScore_def len sg)
      have notin: "?C \<notin> groupsBy g ps"
      proof
        assume "?C \<in> groupsBy g ps"
        then have "?C \<subseteq> ?V" by (rule groupsBy_subset_seen)
        then show False using new component_refl [of p g] by auto
      qed
      have grp': "groupsBy g (ps @ [p]) = insert ?C (groupsBy g ps)"
        using groupsBy_snoc_new [OF gne, of ps] True len by simp
      have sum': "(\<Sum>C \<in> groupsBy g (ps @ [p]). groupScore g C)
                    = groupScore g ?C + (\<Sum>C \<in> groupsBy g ps. groupScore g C)"
        unfolding grp' using notin finite_groupsBy by simp
      have c': "cell (clearGroup ?N grp) r c =
            (if (r, c) \<in> ?V \<union> ?C \<and> 6 \<le> card (component g (r, c)) then EMPTY else cell g r c)"
        if vr: "isValidPos r c" for r c
      proof (cases "(r, c) \<in> ?C")
        case True
        have "component g (r, c) = ?C" using True by (rule component_eq)
        then have "6 \<le> card (component g (r, c))" using \<open>6 \<le> length grp\<close> len by simp
        then show ?thesis using True clearGroup_cell [OF wfN gv vr] sg by simp
      next
        case nin: False
        then show ?thesis using clearGroup_cell [OF wfN gv vr] sg cells [OF vr] by simp
      qed
      show ?thesis
        unfolding scanInv_def m seen' using clearGroup_wf [OF wfN] visd sg c' sum' gs pts
        by simp
    next
      case small: False
      have m: "matchCell s p = s\<lparr>ms_visitedGlobal := visited\<rparr>"
        using False small vis gc by (simp add: matchCell_def Let_def)
      have grp': "groupsBy g (ps @ [p]) = groupsBy g ps"
        using groupsBy_snoc_new [OF gne, of ps] small len by simp
      have c': "cell ?N r c =
            (if (r, c) \<in> ?V \<union> ?C \<and> 6 \<le> card (component g (r, c)) then EMPTY else cell g r c)"
        if vr: "isValidPos r c" for r c
      proof (cases "(r, c) \<in> ?C")
        case True
        have "component g (r, c) = ?C" using True by (rule component_eq)
        then have "\<not> 6 \<le> card (component g (r, c))" using small len by simp
        moreover have "(r, c) \<notin> ?V" using True dis by auto
        ultimately show ?thesis using cells [OF vr] by simp
      next
        case nin: False
        then show ?thesis using cells [OF vr] by simp
      qed
      show ?thesis
        unfolding scanInv_def m seen' grp' using wfN visd sg c' pts by simp
    qed
  qed
qed

lemma scan_inv:
  assumes "scanInv g [] s" "\<forall>p \<in> set ps. isValidPos (fst p) (snd p)"
  shows "scanInv g ps (foldl matchCell s ps)"
  using assms(2)
proof (induction ps rule: rev_induct)
  case Nil
  show ?case using assms(1) by simp
next
  case (snoc p ps)
  then have "scanInv g ps (foldl matchCell s ps)" and "isValidPos (fst p) (snd p)" by simp_all
  then have "scanInv g (ps @ [p]) (matchCell (foldl matchCell s ps) p)" by (rule matchCell_inv)
  then show ?case by simp
qed

lemma allCells_valid: "\<forall>p \<in> set allCells. isValidPos (fst p) (snd p)"
  using allCells_iff by auto

lemma checkMatchesState_inv:
  assumes "wfGrid g"
  shows "scanInv g allCells (checkMatchesState g)"
  unfolding checkMatchesState_def
proof (rule scan_inv [OF _ allCells_valid])
  show "scanInv g [] \<lparr>ms_nextGrid = g, ms_totalPoints = 0, ms_visitedGlobal = {},
          ms_maxComboName = NoCombo, ms_maxPriority = - 1\<rparr>"
    using assms by (simp add: scanInv_def seenBy_def groupsBy_def)
qed

lemma seenBy_allCells:
  assumes "isValidPos r c"
  shows "(r, c) \<in> seenBy g allCells \<longleftrightarrow> cell g r c \<noteq> EMPTY"
proof
  assume "(r, c) \<in> seenBy g allCells"
  then show "cell g r c \<noteq> EMPTY" using seenBy_color [of "(r, c)" g allCells] by simp
next
  assume "cell g r c \<noteq> EMPTY"
  moreover have "(r, c) \<in> set allCells" using assms by (simp add: allCells_iff)
  ultimately show "(r, c) \<in> seenBy g allCells"
    using component_refl [of "(r, c)" g] unfolding seenBy_def by force
qed

lemma checkMatches_wf: "wfGrid g \<Longrightarrow> wfGrid (fst (checkMatches g))"
  using checkMatchesState_inv [of g] by (simp add: checkMatches_def scanInv_def Let_def)

lemma checkMatches_cell:
  assumes "wfGrid g" "isValidPos r c"
  shows "cell (fst (checkMatches g)) r c =
           (if cell g r c \<noteq> EMPTY \<and> 6 \<le> card (component g (r, c)) then EMPTY else cell g r c)"
  using checkMatchesState_inv [OF assms(1)] assms(2) seenBy_allCells [OF assms(2), of g]
  by (simp add: checkMatches_def scanInv_def Let_def)

lemma checkMatches_points:
  assumes "wfGrid g"
  shows "snd (checkMatches g) = (\<Sum>C \<in> eligibleGroups g. groupScore g C)"
  using checkMatchesState_inv [OF assms]
  by (simp add: checkMatches_def scanInv_def Let_def groupsBy_def eligibleGroups_def)

section \<open>The classify-first detector of the second source file\<close>

text \<open>
  The repository holds a second copy of the component (\<^verbatim>\<open>src/unnamed/part_000\<close>). Its
  geometry, gravity, piece control and game loop are those modelled above, line for line;
  its \<^verbatim>\<open>checkMatches\<close> is a different algorithm. It first looks, at every non-empty
  cell in scan order, for a hexagon around the cell, then a straight through it, then a
  pyramid with the cell as apex, and records the first shape found if none of its cells
  was recorded before; it then collects the connected groups of the cells not recorded
  so far, and clears everything recorded. Its functions keep their names; its
  \<^verbatim>\<open>checkMatches\<close> is \<open>checkMatches_part000\<close> here.
\<close>

definition getDirectionVector :: "int \<Rightarrow> nat \<Rightarrow> int \<times> int" where
  "getDirectionVector r dirIndex =
     (let offsets =
            (if isOdd r
             then [(-1, 0), (-1, 1), (0, 1), (1, 1), (1, 0), (0, -1)]
             else [(-1, -1), (-1, 0), (0, 1), (1, 0), (1, -1), (0, -1)])
      in if dirIndex < length offsets then offsets ! dirIndex else (0, 0))"

text \<open>
  \<^verbatim>\<open>checkHexagon\<close>: the loop over the neighbours stops at the first one that is out of
  bounds or not of the colour asked for; \<open>None\<close> is \<^verbatim>\<open>null\<close>.
\<close>

definition checkHexagon :: "Grid \<Rightarrow> int \<Rightarrow> int \<Rightarrow> int \<Rightarrow> Position list option" where
  "checkHexagon currentGrid centerR centerC color =
     (let neighbors = getNeighbors centerR centerC
      in if length neighbors \<noteq> 6 then None
         else
           let hexGroup =
                 takeWhile (\<lambda>n. isValidPos (fst n) (snd n)
                                 \<and> cell currentGrid (fst n) (snd n) = color) neighbors;
               allNeighborsMatch = (length hexGroup = length neighbors)
           in if \<not> allNeighborsMatch then None
              else if length hexGroup = 6 then
                (let centerColor = cell currentGrid centerR centerC
                 in if centerColor \<noteq> EMPTY then Some (hexGroup @ [(centerR, centerC)])
                    else Some hexGroup)
              else None)"

definition checkPyramidDirectional ::
  "Grid \<Rightarrow> int \<Rightarrow> int \<Rightarrow> int \<Rightarrow> PyramidDir \<Rightarrow> Position list option" where
  "checkPyramidDirectional currentGrid r c color direction =
     (if cell currentGrid r c \<noteq> color then None
      else
        let getNextLevelNeighbors =
              (if direction = DOWN then getBottomNeighbors else getTopNeighbors);
            row2Candidates = getNextLevelNeighbors r c
        in if length row2Candidates \<noteq> 2 then None
           else
             let pos2A = row2Candidates ! 0; pos2B = row2Candidates ! 1
             in if \<not> isValidPos (fst pos2A) (snd pos2A)
                   \<or> cell currentGrid (fst pos2A) (snd pos2A) \<noteq> color then None
                else if \<not> isValidPos (fst pos2B) (snd pos2B)
                   \<or> cell currentGrid (fst pos2B) (snd pos2B) \<noteq> color then None
                else
                  let row3Candidates = getNextLevelNeighbors (fst pos2A) (snd pos2A)
                                       @ getNextLevelNeighbors (fst pos2B) (snd pos2B);
                      row3Unique =
                        uniquePoints (filter (\<lambda>p. isValidPos (fst p) (snd p)) row3Candidates)
                  in if length row3Unique \<noteq> 3 then None
                     else if \<not> list_all (\<lambda>p. cell currentGrid (fst p) (snd p) = color) row3Unique
                     then None
                     else
                       let pyramidGroup = [(r, c), pos2A, pos2B] @ row3Unique
                       in if length pyramidGroup = 6 then Some pyramidGroup else None)"

definition checkPyramid :: "Grid \<Rightarrow> int \<Rightarrow> int \<Rightarrow> int \<Rightarrow> Position list option" where
  "checkPyramid currentGrid r c color =
     (case checkPyramidDirectional currentGrid r c color DOWN of
        Some m \<Rightarrow> Some m
      | None \<Rightarrow> checkPyramidDirectional currentGrid r c color UP)"

text \<open>
  One counting loop of \<^verbatim>\<open>checkStraight\<close>: the cells \<open>(r + dr * k, c + dc * k)\<close> for
  \<open>k = 1, \<dots>, 5\<close>, up to the first that is out of bounds or of another colour. The step
  \<open>(dr, dc)\<close> is that of the start row for every \<open>k\<close>.
\<close>

definition straightRun :: "Grid \<Rightarrow> int \<Rightarrow> int \<Rightarrow> int \<Rightarrow> nat \<Rightarrow> Position list" where
  "straightRun currentGrid r c color dirIndex =
     takeWhile (\<lambda>p. isValidPos (fst p) (snd p) \<and> cell currentGrid (fst p) (snd p) = color)
       (map (\<lambda>k. (r + fst (getDirectionVector r dirIndex) * k,
                   c + snd (getDirectionVector r dirIndex) * k)) [1..5])"

fun straightAxes :: "Grid \<Rightarrow> int \<Rightarrow> int \<Rightarrow> int \<Rightarrow> nat list \<Rightarrow> Position list option" where
  "straightAxes currentGrid r c color [] = None"
| "straightAxes currentGrid r c color (i # axes) =
     (let run1 = straightRun currentGrid r c color i;
          run2 = straightRun currentGrid r c color (i + 3);
          grp = (r, c) # run1 @ run2
      in if length run1 + length run2 + 1 \<ge> 6 then Some grp
         else straightAxes currentGrid r c color axes)"

definition checkStraight :: "Grid \<Rightarrow> int \<Rightarrow> int \<Rightarrow> int \<Rightarrow> Position list option" where
  "checkStraight currentGrid r c color =
     (if cell currentGrid r c = EMPTY \<or> cell currentGrid r c \<noteq> color then None
      else straightAxes currentGrid r c color [0, 1, 2])"

text \<open>
  The first pass. \<^verbatim>\<open>matchedPositions\<close> is a JavaScript \<^verbatim>\<open>Set\<close>, which keeps
  insertion order: a list without repetitions.
\<close>

record ShapeState =
  ss_matchedPositions :: "Position list"
  ss_totalPoints :: int
  ss_comboMessage :: ComboName

definition addKey :: "Position list \<Rightarrow> Position \<Rightarrow> Position list" where
  "addKey keys p = (if p \<in> set keys then keys else keys @ [p])"

definition findShape :: "Grid \<Rightarrow> int \<Rightarrow> int \<Rightarrow> (Position list \<times> int \<times> ComboName) option" where
  "findShape nextGrid r c =
     (let color = cell nextGrid r c;
          neighbors = getNeighbors r c;
          hexagonMatch =
            (if length neighbors = 6 then
               (let neighborColors = map (\<lambda>n. cell nextGrid (fst n) (snd n)) neighbors;
                    nonEmptyNeighbors = filter (\<lambda>nc. nc \<noteq> EMPTY) neighborColors
                in if length nonEmptyNeighbors = 6
                      \<and> list_all (\<lambda>nc. nc = nonEmptyNeighbors ! 0) nonEmptyNeighbors
                   then checkHexagon nextGrid r c (nonEmptyNeighbors ! 0)
                   else None)
             else None)
      in case hexagonMatch of
           Some m \<Rightarrow> Some (m, 1000, HexagonCombo)
         | None \<Rightarrow>
             (let straightMatch = checkStraight nextGrid r c color;
                  straightOk = (case straightMatch of Some m \<Rightarrow> length m \<ge> 6 | None \<Rightarrow> False)
              in if straightOk then Some (the straightMatch, 500, StraightCombo)
                 else
                   (case checkPyramid nextGrid r c color of
                      Some m \<Rightarrow> Some (m, 800, PyramidCombo)
                    | None \<Rightarrow> None)))"

definition shapeCell :: "Grid \<Rightarrow> ShapeState \<Rightarrow> Position \<Rightarrow> ShapeState" where
  "shapeCell nextGrid s pos =
     (let r = fst pos; c = snd pos; color = cell nextGrid r c
      in if color = EMPTY then s
         else if (r, c) \<in> set (ss_matchedPositions s) then s
         else
           (case findShape nextGrid r c of
              None \<Rightarrow> s
            | Some (matchGroup, bonusPoints, comboName) \<Rightarrow>
                let isNewMatch = list_all (\<lambda>p. p \<notin> set (ss_matchedPositions s)) matchGroup
                in if isNewMatch
                   then \<lparr>ss_matchedPositions = foldl addKey (ss_matchedPositions s) matchGroup,
                         ss_totalPoints =
                           ss_totalPoints s + (int (length matchGroup) * 100 + bonusPoints),
                         ss_comboMessage = comboName\<rparr>
                   else s))"

text \<open>The second pass: connected groups among the cells not recorded by the first.\<close>

record RegularBfs =
  rb_queue :: "Position list"
  rb_group :: "Position list"
  rb_visited :: "Position set"

definition regularVisit :: "Grid \<Rightarrow> int \<Rightarrow> RegularBfs \<Rightarrow> Position \<Rightarrow> RegularBfs" where
  "regularVisit nextGrid color b n =
     (if cell nextGrid (fst n) (snd n) = color \<and> n \<notin> rb_visited b
      then b\<lparr>rb_visited := insert n (rb_visited b), rb_group := rb_group b @ [n],
             rb_queue := rb_queue b @ [n]\<rparr>
      else b)"

definition regularExpand ::
  "Grid \<Rightarrow> int \<Rightarrow> RegularBfs \<Rightarrow> Position \<Rightarrow> Position list \<Rightarrow> RegularBfs" where
  "regularExpand nextGrid color b cur rest =
     foldl (regularVisit nextGrid color) (b\<lparr>rb_queue := rest\<rparr>) (getNeighbors (fst cur) (snd cur))"

lemma regular_fold_mono:
  "rb_visited b \<subseteq> rb_visited (foldl (regularVisit g color) b ns)"
proof (induction ns arbitrary: b)
  case Nil
  show ?case by simp
next
  case (Cons n ns)
  have "rb_visited b \<subseteq> rb_visited (regularVisit g color b n)"
    by (auto simp: regularVisit_def)
  then show ?case using Cons.IH [of "regularVisit g color b n"] by auto
qed

lemma regular_fold_bound:
  "rb_visited (foldl (regularVisit g color) b ns) \<subseteq> rb_visited b \<union> set ns"
proof (induction ns arbitrary: b)
  case Nil
  show ?case by simp
next
  case (Cons n ns)
  have "rb_visited (regularVisit g color b n) \<subseteq> insert n (rb_visited b)"
    by (auto simp: regularVisit_def)
  then show ?case using Cons.IH [of "regularVisit g color b n"] by auto
qed

lemma regular_fold_same_or_grows:
  "foldl (regularVisit g color) b ns = b
   \<or> rb_visited b \<subset> rb_visited (foldl (regularVisit g color) b ns)"
proof (induction ns arbitrary: b)
  case Nil
  show ?case by simp
next
  case (Cons n ns)
  show ?case
  proof (cases "regularVisit g color b n = b")
    case True
    then show ?thesis using Cons.IH [of b] by simp
  next
    case False
    then have "rb_visited b \<subset> rb_visited (regularVisit g color b n)"
      by (auto simp: regularVisit_def split: if_splits)
    then show ?thesis
      using regular_fold_mono [of "regularVisit g color b n" g color ns] by auto
  qed
qed

lemma regularExpand_measure:
  assumes "rb_queue b = cur # rest"
  shows "(card (set allCells - rb_visited (regularExpand g color b cur rest))
            < card (set allCells - rb_visited b))
         \<or> (card (set allCells - rb_visited (regularExpand g color b cur rest))
              = card (set allCells - rb_visited b)
            \<and> length (rb_queue (regularExpand g color b cur rest)) < length (rb_queue b))"
proof -
  let ?b0 = "b\<lparr>rb_queue := rest\<rparr>"
  let ?ns = "getNeighbors (fst cur) (snd cur)"
  let ?b' = "foldl (regularVisit g color) ?b0 ?ns"
  have e: "regularExpand g color b cur rest = ?b'" by (simp add: regularExpand_def)
  from regular_fold_same_or_grows [of g color ?b0 ?ns]
  show ?thesis
  proof
    assume "?b' = ?b0"
    then show ?thesis using assms unfolding e by simp
  next
    assume gr: "rb_visited ?b0 \<subset> rb_visited ?b'"
    then obtain x where x: "x \<in> rb_visited ?b'" "x \<notin> rb_visited b" by auto
    have "x \<in> set ?ns" using x regular_fold_bound [of g color ?b0 ?ns] by auto
    then have xa: "x \<in> set allCells" using getNeighbors_allCells by blast
    have "set allCells - rb_visited ?b' \<subset> set allCells - rb_visited b"
      using gr x xa by auto
    then have "card (set allCells - rb_visited ?b') < card (set allCells - rb_visited b)"
      by (intro psubset_card_mono) auto
    then show ?thesis unfolding e by simp
  qed
qed

function regularLoop :: "Grid \<Rightarrow> int \<Rightarrow> RegularBfs \<Rightarrow> RegularBfs" where
  "regularLoop nextGrid color b =
     (case rb_queue b of
        [] \<Rightarrow> b
      | cur # rest \<Rightarrow> regularLoop nextGrid color (regularExpand nextGrid color b cur rest))"
  by pat_completeness auto
termination
proof (relation "measures [\<lambda>(g, color, b). card (set allCells - rb_visited b),
                           \<lambda>(g, color, b). length (rb_queue b)]", goal_cases)
  case 1
  show ?case by simp
next
  case (2 g color b cur rest)
  then show ?case using regularExpand_measure [of b cur rest g color] by auto
qed

declare regularLoop.simps [simp del]

record RegularState =
  rs_visited :: "Position set"
  rs_regularMatches :: "Position list"
  rs_matchedPositions :: "Position list"

definition regularCell :: "Grid \<Rightarrow> RegularState \<Rightarrow> Position \<Rightarrow> RegularState" where
  "regularCell nextGrid s pos =
     (let r = fst pos; c = snd pos
      in if cell nextGrid r c = EMPTY \<or> (r, c) \<in> rs_visited s then s
         else
           let color = cell nextGrid r c;
               b = regularLoop nextGrid color
                     \<lparr>rb_queue = [(r, c)], rb_group = [(r, c)],
                      rb_visited = insert (r, c) (rs_visited s)\<rparr>;
               grp = rb_group b
           in if length grp \<ge> 6
              then \<lparr>rs_visited = rb_visited b,
                    rs_regularMatches = rs_regularMatches s @ grp,
                    rs_matchedPositions = foldl addKey (rs_matchedPositions s) grp\<rparr>
              else s\<lparr>rs_visited := rb_visited b\<rparr>)"

definition checkMatches_part000 :: "Grid \<Rightarrow> Grid \<times> int" where
  "checkMatches_part000 currentGrid =
     (let nextGrid = currentGrid;
          s1 = foldl (shapeCell nextGrid)
                 \<lparr>ss_matchedPositions = [], ss_totalPoints = 0, ss_comboMessage = NoCombo\<rparr>
                 allCells;
          s2 = foldl (regularCell nextGrid)
                 \<lparr>rs_visited = set (ss_matchedPositions s1), rs_regularMatches = [],
                  rs_matchedPositions = ss_matchedPositions s1\<rparr>
                 allCells;
          n = int (length (rs_regularMatches s2));
          totalPoints =
            (if length (rs_regularMatches s2) > 0
             then ss_totalPoints s1 + (n * 100 + (n - 6) * 50)
             else ss_totalPoints s1)
      in if length (rs_matchedPositions s2) > 0
         then (clearGroup nextGrid (rs_matchedPositions s2), totalPoints)
         else (currentGrid, 0))"

lemma takeWhile_all_length:
  "length (takeWhile P xs) = length xs \<longleftrightarrow> (\<forall>x \<in> set xs. P x)"
proof
  assume l: "length (takeWhile P xs) = length xs"
  have "length (takeWhile P xs) + length (dropWhile P xs) = length xs"
    by (metis length_append takeWhile_dropWhile_id)
  then have "dropWhile P xs = []" using l by simp
  then have "takeWhile P xs = xs" by (metis append_Nil2 takeWhile_dropWhile_id)
  then show "\<forall>x \<in> set xs. P x" by (simp add: takeWhile_eq_all_conv)
next
  assume "\<forall>x \<in> set xs. P x"
  then have "takeWhile P xs = xs" by (simp add: takeWhile_eq_all_conv)
  then show "length (takeWhile P xs) = length xs" by (rule arg_cong)
qed

lemma checkHexagon_iff:
  "checkHexagon g r c color =
     (if length (getNeighbors r c) = 6
         \<and> (\<forall>n \<in> set (getNeighbors r c). cell g (fst n) (snd n) = color)
      then Some (getNeighbors r c @ (if cell g r c \<noteq> EMPTY then [(r, c)] else []))
      else None)"
proof -
  let ?P = "\<lambda>n. isValidPos (fst n) (snd n) \<and> cell g (fst n) (snd n) = color"
  let ?ns = "getNeighbors r c"
  have v: "\<And>n. n \<in> set ?ns \<Longrightarrow> isValidPos (fst n) (snd n)"
    using getNeighbors_valid [of _ _ r c] by auto
  have a: "length (takeWhile ?P ?ns) = length ?ns
             \<longleftrightarrow> (\<forall>n \<in> set ?ns. cell g (fst n) (snd n) = color)"
    unfolding takeWhile_all_length using v by blast
  show ?thesis
  proof (cases "length ?ns = 6 \<and> (\<forall>n \<in> set ?ns. cell g (fst n) (snd n) = color)")
    case True
    then have "\<forall>n \<in> set ?ns. ?P n" using v by blast
    then have t: "takeWhile ?P ?ns = ?ns" by (simp add: takeWhile_eq_all_conv)
    show ?thesis using True unfolding checkHexagon_def Let_def t by simp
  next
    case False
    then have "length ?ns \<noteq> 6 \<or> length (takeWhile ?P ?ns) \<noteq> length ?ns"
      using a by blast
    then show ?thesis using False unfolding checkHexagon_def Let_def by auto
  qed
qed


section \<open>Boards used as examples\<close>

definition board :: "(Position \<times> int) list \<Rightarrow> Grid" where
  "board balls = foldl (\<lambda>g b. setCell g (fst (fst b)) (snd (fst b)) (snd b)) emptyGrid balls"

text \<open>Scenario C: a horizontal run of exactly six balls of colour 3 on the bottom row.\<close>

definition lineGrid :: Grid where
  "lineGrid =
     board [((19, 0), 3), ((19, 1), 3), ((19, 2), 3), ((19, 3), 3), ((19, 4), 3), ((19, 5), 3)]"

text \<open>
  A settled board with a ring: the six neighbours of \<open>(18, 4)\<close> hold colour 5 around a
  ball of colour 0, and two balls of other colours in the bottom row hold up the ring's
  sides.
\<close>

definition ringBottomGrid :: Grid where
  "ringBottomGrid =
     board [((17, 3), 5), ((17, 4), 5),
            ((18, 3), 5), ((18, 4), 0), ((18, 5), 5),
            ((19, 2), 1), ((19, 3), 5), ((19, 4), 5), ((19, 5), 2)]"

text \<open>The same board with the centre in the ring's colour: one group of seven.\<close>

definition ringBottomSameGrid :: Grid where
  "ringBottomSameGrid = setCell ringBottomGrid 18 4 5"

text \<open>
  A settled board on which the ring's top row continues to the horizontal run
  \<open>(17, 3), \<dots>, (17, 8)\<close>: the ten balls of colour 5 are one group that contains a
  hexagon and a straight. The other balls hold the group up; no two of them that touch
  have the same colour.
\<close>

definition ringRunGrid :: Grid where
  "ringRunGrid =
     board [((17, 3), 5), ((17, 4), 5), ((17, 5), 5), ((17, 6), 5), ((17, 7), 5), ((17, 8), 5),
            ((18, 3), 5), ((18, 4), 0), ((18, 5), 5), ((18, 6), 1), ((18, 7), 2), ((18, 8), 1),
            ((19, 2), 1), ((19, 3), 5), ((19, 4), 5), ((19, 5), 3), ((19, 6), 0), ((19, 7), 3),
            ((19, 8), 0)]"

text \<open>
  A board with every cell filled, coloured so that no two neighbours agree: it is
  settled, has no group of six, and its hidden rows are occupied.
\<close>

definition fullGrid :: Grid where
  "fullGrid = map (\<lambda>r. map (\<lambda>c. c mod 2 + 2 * (r mod 2)) [0..COLS - 1]) [0..TOTAL_ROWS - 1]"

lemma example_grids_wf:
  "wfGrid lineGrid" "wfGrid ringBottomGrid" "wfGrid ringBottomSameGrid" "wfGrid ringRunGrid"
  by code_simp+

lemma example_grids_settled:
  "settled lineGrid" "settled ringBottomGrid" "settled ringBottomSameGrid" "settled ringRunGrid"
  by code_simp+

text \<open>
  On an untouched grid the search from a board cell returns exactly the cell's group, so
  the groups of a concrete board can be computed.
\<close>

lemma component_by_search:
  assumes "wfGrid g" "isValidPos r c"
  shows "component g (r, c) = set (fst (getConnectedGroup r c g {}))"
proof -
  let ?init = "\<lparr>ms_nextGrid = g, ms_totalPoints = 0, ms_visitedGlobal = {},
               ms_maxComboName = NoCombo, ms_maxPriority = - 1\<rparr>"
  have i: "scanInv g [] ?init" using assms(1) by (simp add: scanInv_def seenBy_def groupsBy_def)
  have s: "seenBy g [] = {}" by (simp add: seenBy_def)
  have "(bfsEdge g (cell g r c) {})\<^sup>* `` {(r, c)} = component g (r, c)"
    using bfs_is_component [OF i, of "(r, c)"] assms(2) s by simp
  then show ?thesis using getConnectedGroup_correct [of r c "{}" g] by simp
qed

lemma eligibleGroups_search:
  assumes "wfGrid g"
  shows "eligibleGroups g =
     set (map (\<lambda>p. set (fst (getConnectedGroup (fst p) (snd p) g {})))
           (filter (\<lambda>p. cell g (fst p) (snd p) \<noteq> EMPTY
                         \<and> 6 \<le> card (set (fst (getConnectedGroup (fst p) (snd p) g {}))))
              allCells))"
proof -
  have c: "component g p = set (fst (getConnectedGroup (fst p) (snd p) g {}))"
    if "p \<in> set allCells" for p
    using component_by_search [OF assms, of "fst p" "snd p"] that allCells_valid by simp
  have "{p \<in> set allCells. cell g (fst p) (snd p) \<noteq> EMPTY \<and> 6 \<le> card (component g p)}
      = {p \<in> set allCells. cell g (fst p) (snd p) \<noteq> EMPTY
           \<and> 6 \<le> card (set (fst (getConnectedGroup (fst p) (snd p) g {})))}"
    using c by auto
  then show ?thesis
    unfolding eligibleGroups_def using c by (auto simp: image_iff)
qed

lemma ring_positions:
  "isValidPos 18 4" "isValidPos 17 3" "length (getNeighbors 18 4) = 6"
  "getNeighbors 18 4 = [(17, 3), (17, 4), (18, 3), (18, 5), (19, 3), (19, 4)]"
  by code_simp+

lemma ringBottom_center: "component ringBottomGrid (18, 4) = {(18, 4)}"
proof -
  have "component ringBottomGrid (18, 4) = set (fst (getConnectedGroup 18 4 ringBottomGrid {}))"
    using example_grids_wf(2) ring_positions(1) by (rule component_by_search)
  moreover have "set (fst (getConnectedGroup 18 4 ringBottomGrid {})) = {(18, 4)}" by code_simp
  ultimately show ?thesis by simp
qed

lemma ringBottom_ring:
  "component ringBottomGrid (17, 3) = set [(17, 3), (17, 4), (18, 3), (18, 5), (19, 3), (19, 4)]"
proof -
  have "component ringBottomGrid (17, 3) = set (fst (getConnectedGroup 17 3 ringBottomGrid {}))"
    using example_grids_wf(2) ring_positions(2) by (rule component_by_search)
  moreover have "set (fst (getConnectedGroup 17 3 ringBottomGrid {}))
      = set [(17, 3), (17, 4), (18, 3), (18, 5), (19, 3), (19, 4)]" by code_simp
  ultimately show ?thesis by simp
qed

lemma ringBottomSame_groups:
  "eligibleGroups ringBottomSameGrid =
     {set [(17, 3), (17, 4), (18, 3), (18, 4), (18, 5), (19, 3), (19, 4)]}"
  unfolding eligibleGroups_search [OF example_grids_wf(3)] by code_simp

lemma ringRun_groups:
  "eligibleGroups ringRunGrid =
     {set [(17, 3), (17, 4), (17, 5), (17, 6), (17, 7), (17, 8),
           (18, 3), (18, 5), (19, 3), (19, 4)]}"
  unfolding eligibleGroups_search [OF example_grids_wf(4)] by code_simp

lemma ringBottom_eval:
  "cell ringBottomGrid 18 4 = 0"
  "cell ringBottomGrid 17 3 = 5" "cell ringBottomGrid 17 4 = 5" "cell ringBottomGrid 18 3 = 5"
  "cell ringBottomGrid 18 5 = 5" "cell ringBottomGrid 19 3 = 5" "cell ringBottomGrid 19 4 = 5"
  "checkMatches ringBottomGrid = (board [((18, 4), 0), ((19, 2), 1), ((19, 5), 2)], 1600)"
  "checkMatches_part000 ringBottomGrid = (board [((19, 2), 1), ((19, 5), 2)], 1700)"
  "cell (board [((18, 4), 0), ((19, 2), 1), ((19, 5), 2)]) 18 4 = 0"
  "cell (board [((19, 2), 1), ((19, 5), 2)]) 18 4 = EMPTY"
  "checkHexagon ringBottomGrid 18 4 5 =
     Some [(17, 3), (17, 4), (18, 3), (18, 5), (19, 3), (19, 4), (18, 4)]"
  by code_simp+

lemma ringBottomSame_eval:
  "snd (checkMatches ringBottomSameGrid) = 1750"
  "snd (checkMatches_part000 ringBottomSameGrid) = 1700"
  "classifyGroup (set [(17, 3), (17, 4), (18, 3), (18, 4), (18, 5), (19, 3), (19, 4)])
     ringBottomSameGrid = (1000, HexagonCombo, 3)"
  "card (set [(17, 3), (17, 4), (18, 3), (18, 4), (18, 5), (19, 3), (19, 4)] :: Position set) = 7"
  by code_simp+

lemma ringRun_eval:
  "snd (checkMatches ringRunGrid) = 2200"
  "hasHexagonInGroup
     (set [(17, 3), (17, 4), (17, 5), (17, 6), (17, 7), (17, 8),
           (18, 3), (18, 5), (19, 3), (19, 4)]) ringRunGrid"
  "hasStraightInGroup
     (set [(17, 3), (17, 4), (17, 5), (17, 6), (17, 7), (17, 8),
           (18, 3), (18, 5), (19, 3), (19, 4)])"
  "checkMatches_part000 ringRunGrid =
     (board [((18, 3), 5), ((18, 4), 0), ((18, 5), 5), ((18, 6), 1), ((18, 7), 2), ((18, 8), 1),
             ((19, 2), 1), ((19, 3), 5), ((19, 4), 5), ((19, 5), 3), ((19, 6), 0), ((19, 7), 3),
             ((19, 8), 0)], 1100)"
  by code_simp+

lemma lineGrid_eval: "snd (checkMatches lineGrid) = 1100"
  by code_simp

section \<open>Claims about match detection\<close>

subsection \<open>Clearing\<close>

text \<open>
  C5 as stated fails on the \<^verbatim>\<open>checkMatches\<close> of the second source file: on the settled
  board \<open>ringBottomGrid\<close> the ball of colour 0 at \<open>(18, 4)\<close> is a group of its own, and
  that detector, finding the six balls of colour 5 around it, empties it with the ring.
\<close>

theorem detection_clears_part000_counterexample:
  "settled ringBottomGrid
   \<and> cell ringBottomGrid 18 4 = 0
   \<and> component ringBottomGrid (18, 4) = {(18, 4)}
   \<and> cell (fst (checkMatches_part000 ringBottomGrid)) 18 4 = EMPTY"
  using example_grids_settled(2) ringBottom_center ringBottom_eval(1,9,11) by simp

text \<open>
  C5, amended: the claim for the match detection of \<^verbatim>\<open>src/6ball.tsx\<close>. For every
  well-formed grid and every board cell, one pass of \<^verbatim>\<open>checkMatches\<close> changes the cell
  only by setting it to \<open>EMPTY\<close>, and only when the cell holds a ball whose connected
  same-colour group has at least 6 members; a cell whose group has fewer than 6 members
  keeps its value.
\<close>

theorem detection_clears_only_groups_of_six:
  "wfGrid g \<and> isValidPos r c \<longrightarrow>
     (cell (fst (checkMatches g)) r c \<noteq> cell g r c \<longrightarrow>
        cell (fst (checkMatches g)) r c = EMPTY \<and> cell g r c \<noteq> EMPTY
        \<and> 6 \<le> card (component g (r, c)))
     \<and> (card (component g (r, c)) < 6 \<longrightarrow> cell (fst (checkMatches g)) r c = cell g r c)"
  using checkMatches_cell [of g r c] by auto

theorem detection_clears_only_groups_of_six_witness:
  "wfGrid ringBottomGrid \<and> isValidPos 18 4
   \<and> card (component ringBottomGrid (18, 4)) < 6
   \<and> cell ringBottomGrid 18 4 = 0
   \<and> cell (fst (checkMatches ringBottomGrid)) 18 4 = 0"
  using detection_clears_only_groups_of_six [of ringBottomGrid 18 4]
    example_grids_wf(2) ring_positions(1) ringBottom_center ringBottom_eval(1)
  by simp

subsection \<open>Scoring\<close>

lemma eligible_card: "C \<in> eligibleGroups g \<Longrightarrow> 6 \<le> card C"
  by (auto simp: eligibleGroups_def)

lemma classifyGroup_points:
  "fst (classifyGroup C g) =
     (if hasHexagonInGroup C g then 1000
      else if hasPyramidInGroup C then 800
      else if hasStraightInGroup C then 500
      else 0)"
  by (simp add: classifyGroup_def)

text \<open>
  C3 as stated fails on the \<^verbatim>\<open>checkMatches\<close> of the second source file: the settled
  board \<open>ringBottomSameGrid\<close> has one eligible group, of 7 balls, with a hexagon; the
  claim's sum is \<open>7 * 100 + 1 * 50 + 1000 = 1750\<close>, and that detector returns
  \<open>7 * 100 + 1000 = 1700\<close> (it adds no 50 points for the seventh ball of a shape).
\<close>

theorem detection_points_part000_counterexample:
  "settled ringBottomSameGrid
   \<and> eligibleGroups ringBottomSameGrid =
       {set [(17, 3), (17, 4), (18, 3), (18, 4), (18, 5), (19, 3), (19, 4)]}
   \<and> card (set [(17, 3), (17, 4), (18, 3), (18, 4), (18, 5), (19, 3), (19, 4)] :: Position set) = 7
   \<and> classifyGroup (set [(17, 3), (17, 4), (18, 3), (18, 4), (18, 5), (19, 3), (19, 4)])
        ringBottomSameGrid = (1000, HexagonCombo, 3)
   \<and> (7 * 100 + max 0 (7 - 6) * 50 + 1000 :: int) = 1750
   \<and> snd (checkMatches_part000 ringBottomSameGrid) = 1700"
  using example_grids_settled(3) ringBottomSame_groups ringBottomSame_eval(2,3,4) by simp

text \<open>
  C3, amended: the claim for the match detection of \<^verbatim>\<open>src/6ball.tsx\<close>. For every
  well-formed grid, the points one pass of \<^verbatim>\<open>checkMatches\<close> returns are the sum, over
  the eligible groups, of \<open>size * 100 + max 0 (size - 6) * 50\<close> plus the group's shape
  bonus, and a shape bonus is one of 0, 500, 800 and 1000.
\<close>

theorem detection_points_sum_over_groups:
  "(wfGrid g \<longrightarrow>
      snd (checkMatches g) =
        (\<Sum>C \<in> eligibleGroups g.
           int (card C) * 100 + max 0 (int (card C) - 6) * 50 + fst (classifyGroup C g)))
   \<and> fst (classifyGroup D g) \<in> {0, 500, 800, 1000}"
proof (intro conjI impI)
  assume w: "wfGrid g"
  have "(\<Sum>C \<in> eligibleGroups g. groupScore g C) =
        (\<Sum>C \<in> eligibleGroups g.
           int (card C) * 100 + max 0 (int (card C) - 6) * 50 + fst (classifyGroup C g))"
  proof (rule sum.cong)
    fix C assume "C \<in> eligibleGroups g"
    then have "6 \<le> card C" by (rule eligible_card)
    then show "groupScore g C =
        int (card C) * 100 + max 0 (int (card C) - 6) * 50 + fst (classifyGroup C g)"
      by (simp add: groupScore_def)
  qed simp
  then show "snd (checkMatches g) =
        (\<Sum>C \<in> eligibleGroups g.
           int (card C) * 100 + max 0 (int (card C) - 6) * 50 + fst (classifyGroup C g))"
    using checkMatches_points [OF w] by simp
next
  show "fst (classifyGroup D g) \<in> {0, 500, 800, 1000}"
    by (simp add: classifyGroup_def)
qed

text \<open>
  Scenario C: the run of six scores \<open>600 + 500\<close>; the group of seven around and
  including \<open>(18, 4)\<close> scores \<open>700 + 50 + 1000\<close>.
\<close>

theorem detection_points_sum_over_groups_witness:
  "wfGrid lineGrid
   \<and> snd (checkMatches lineGrid) = 1100
   \<and> (\<Sum>C \<in> eligibleGroups lineGrid.
         int (card C) * 100 + max 0 (int (card C) - 6) * 50 + fst (classifyGroup C lineGrid)) = 1100
   \<and> wfGrid ringBottomSameGrid
   \<and> snd (checkMatches ringBottomSameGrid) = 1750"
  using detection_points_sum_over_groups [of lineGrid] example_grids_wf(1,3) lineGrid_eval
    ringBottomSame_eval(1)
  by simp

text \<open>
  C1 as stated fails on the \<^verbatim>\<open>checkMatches\<close> of the second source file. On the settled
  board \<open>ringRunGrid\<close> the only eligible group is the group of the ten balls of colour
  5; it contains a hexagon (around \<open>(18, 4)\<close>) and a straight (row 17). That detector
  comes to \<open>(17, 3)\<close> first, finds the straight through it and scores \<open>600 + 500\<close>; at
  \<open>(18, 4)\<close> it finds the hexagon and drops it, two of its cells being taken. It
  returns 1100, the straight's bonus and not the hexagon's, and leaves the other four
  balls of the group on the board.
\<close>

theorem shape_priority_part000_counterexample:
  "settled ringRunGrid
   \<and> eligibleGroups ringRunGrid =
       {set [(17, 3), (17, 4), (17, 5), (17, 6), (17, 7), (17, 8),
             (18, 3), (18, 5), (19, 3), (19, 4)]}
   \<and> hasHexagonInGroup
       (set [(17, 3), (17, 4), (17, 5), (17, 6), (17, 7), (17, 8),
             (18, 3), (18, 5), (19, 3), (19, 4)]) ringRunGrid
   \<and> hasStraightInGroup
       (set [(17, 3), (17, 4), (17, 5), (17, 6), (17, 7), (17, 8),
             (18, 3), (18, 5), (19, 3), (19, 4)])
   \<and> checkMatches_part000 ringRunGrid =
       (board [((18, 3), 5), ((18, 4), 0), ((18, 5), 5), ((18, 6), 1), ((18, 7), 2),
               ((18, 8), 1), ((19, 2), 1), ((19, 3), 5), ((19, 4), 5), ((19, 5), 3),
               ((19, 6), 0), ((19, 7), 3), ((19, 8), 0)], 1100)
   \<and> (6 * 100 + 500 :: int) = 1100"
  using example_grids_settled(4) ringRun_groups ringRun_eval(2,3,4) by simp

text \<open>
  C1, amended: the claim for the match detection of \<^verbatim>\<open>src/6ball.tsx\<close>. For every
  well-formed grid, the total of one pass of \<^verbatim>\<open>checkMatches\<close> is the sum over the
  eligible groups of the group's base points plus one shape bonus, chosen in the order
  hexagon (1000), pyramid (800), straight (500), plain (0): the first shape of that
  order the group contains decides, lower ones add nothing. In particular a group
  that contains both a hexagon and a straight gets 1000, the hexagon bonus, and the
  label and priority of the hexagon.
\<close>

theorem shape_bonus_by_priority:
  "(wfGrid g \<longrightarrow>
      snd (checkMatches g) =
        (\<Sum>C \<in> eligibleGroups g.
           (int (card C) * 100 + (int (card C) - 6) * 50)
           + (if hasHexagonInGroup C g then 1000
              else if hasPyramidInGroup C then 800
              else if hasStraightInGroup C then 500
              else 0)))
   \<and> (hasHexagonInGroup D g \<and> hasStraightInGroup D \<longrightarrow>
         classifyGroup D g = (1000, HexagonCombo, 3))
   \<and> (\<not> hasHexagonInGroup D g \<and> hasPyramidInGroup D \<and> hasStraightInGroup D \<longrightarrow>
         classifyGroup D g = (800, PyramidCombo, 2))"
proof (intro conjI impI)
  assume w: "wfGrid g"
  show "snd (checkMatches g) =
        (\<Sum>C \<in> eligibleGroups g.
           (int (card C) * 100 + (int (card C) - 6) * 50)
           + (if hasHexagonInGroup C g then 1000
              else if hasPyramidInGroup C then 800
              else if hasStraightInGroup C then 500
              else 0))"
    unfolding checkMatches_points [OF w] groupScore_def classifyGroup_points ..
qed (simp_all add: classifyGroup_def)

text \<open>
  On \<open>ringRunGrid\<close> the group of ten contains a hexagon and a straight, and
  \<^verbatim>\<open>checkMatches\<close> of \<^verbatim>\<open>src/6ball.tsx\<close> returns \<open>1000 + 200 + 1000\<close>.
\<close>

theorem shape_bonus_by_priority_witness:
  "wfGrid ringRunGrid
   \<and> hasHexagonInGroup
       (set [(17, 3), (17, 4), (17, 5), (17, 6), (17, 7), (17, 8),
             (18, 3), (18, 5), (19, 3), (19, 4)]) ringRunGrid
   \<and> hasStraightInGroup
       (set [(17, 3), (17, 4), (17, 5), (17, 6), (17, 7), (17, 8),
             (18, 3), (18, 5), (19, 3), (19, 4)])
   \<and> classifyGroup
       (set [(17, 3), (17, 4), (17, 5), (17, 6), (17, 7), (17, 8),
             (18, 3), (18, 5), (19, 3), (19, 4)]) ringRunGrid = (1000, HexagonCombo, 3)
   \<and> snd (checkMatches ringRunGrid) = 2200"
  using shape_bonus_by_priority [of ringRunGrid
      "set [(17, 3), (17, 4), (17, 5), (17, 6), (17, 7), (17, 8),
            (18, 3), (18, 5), (19, 3), (19, 4)]"]
    example_grids_wf(4) ringRun_eval(1,2,3)
  by simp

subsection \<open>The centre of a hexagon\<close>

text \<open>
  C2 as stated fails on \<^verbatim>\<open>checkMatches\<close> of \<^verbatim>\<open>src/6ball.tsx\<close>: on the settled board
  \<open>ringBottomGrid\<close>, with the six neighbours of \<open>(18, 4)\<close> in colour 5 around a ball of
  colour 0, the pass detects the hexagon (it returns \<open>600 + 1000\<close> points) and empties
  the six ring cells, and the centre still holds its ball: the board returned holds the
  centre ball and the two balls that held the ring up.
\<close>

theorem hexagon_center_counterexample:
  "settled ringBottomGrid
   \<and> getNeighbors 18 4 = [(17, 3), (17, 4), (18, 3), (18, 5), (19, 3), (19, 4)]
   \<and> cell ringBottomGrid 17 3 = 5 \<and> cell ringBottomGrid 17 4 = 5
   \<and> cell ringBottomGrid 18 3 = 5 \<and> cell ringBottomGrid 18 5 = 5
   \<and> cell ringBottomGrid 19 3 = 5 \<and> cell ringBottomGrid 19 4 = 5
   \<and> cell ringBottomGrid 18 4 = 0
   \<and> checkMatches ringBottomGrid = (board [((18, 4), 0), ((19, 2), 1), ((19, 5), 2)], 1600)
   \<and> cell (fst (checkMatches ringBottomGrid)) 18 4 = 0
   \<and> cell (fst (checkMatches ringBottomGrid)) 18 4 \<noteq> EMPTY"
  using example_grids_settled(2) ring_positions(4) ringBottom_eval(1-8,10)
  by (simp add: EMPTY_def)

lemma ring_center_joins:
  assumes v: "isValidPos r c" and six: "length (getNeighbors r c) = 6"
    and ring: "set (getNeighbors r c) \<subseteq> component g p"
    and col: "cell g r c = cell g (fst p) (snd p)"
  shows "(r, c) \<in> component g p"
proof -
  from six obtain n where n: "n \<in> set (getNeighbors r c)"
    by (cases "getNeighbors r c") auto
  have vn: "isValidPos (fst n) (snd n)" using n getNeighbors_valid [of "fst n" "snd n" r c] by simp
  have np: "n \<in> component g p" using n ring by auto
  have "(r, c) \<in> set (getNeighbors (fst n) (snd n))"
    using getNeighbors_sym [OF v vn] n by simp
  moreover have "cell g r c = cell g (fst n) (snd n)"
    using col component_color [OF np] by simp
  ultimately have "(n, (r, c)) \<in> sameColorAdj g"
    using vn by (simp add: sameColorAdj_def)
  with np show ?thesis by (rule component_step)
qed

lemma checkMatches_cleared_set:
  assumes w: "wfGrid g"
  shows "{q. isValidPos (fst q) (snd q) \<and> cell g (fst q) (snd q) \<noteq> EMPTY
             \<and> cell (fst (checkMatches g)) (fst q) (snd q) = EMPTY}
         = \<Union> (eligibleGroups g)"
proof (intro set_eqI iffI)
  fix q
  assume "q \<in> {q. isValidPos (fst q) (snd q) \<and> cell g (fst q) (snd q) \<noteq> EMPTY
             \<and> cell (fst (checkMatches g)) (fst q) (snd q) = EMPTY}"
  then have v: "isValidPos (fst q) (snd q)" and b: "cell g (fst q) (snd q) \<noteq> EMPTY"
    and e: "cell (fst (checkMatches g)) (fst q) (snd q) = EMPTY" by simp_all
  have big: "6 \<le> card (component g q)"
    using checkMatches_cell [OF w v] b e by (simp split: if_splits)
  have "q \<in> set allCells" using v allCells_iff [of "fst q" "snd q"] by simp
  then have "component g q \<in> eligibleGroups g"
    using b big by (simp add: eligibleGroups_def)
  then show "q \<in> \<Union> (eligibleGroups g)" using component_refl [of q g] by blast
next
  fix q
  assume "q \<in> \<Union> (eligibleGroups g)"
  then obtain p where p: "p \<in> set allCells" "cell g (fst p) (snd p) \<noteq> EMPTY"
    "6 \<le> card (component g p)" "q \<in> component g p"
    by (auto simp: eligibleGroups_def)
  have vp: "isValidPos (fst p) (snd p)" using allCells_valid p(1) by blast
  have vq: "isValidPos (fst q) (snd q)" using p(4) vp by (rule component_valid)
  have cq: "cell g (fst q) (snd q) \<noteq> EMPTY" using component_color [OF p(4)] p(2) by simp
  have "component g (fst q, snd q) = component g p" using component_eq [OF p(4)] by simp
  then have "cell (fst (checkMatches g)) (fst q) (snd q) = EMPTY"
    using checkMatches_cell [OF w vq] cq p(3) by simp
  then show "q \<in> {q. isValidPos (fst q) (snd q) \<and> cell g (fst q) (snd q) \<noteq> EMPTY
             \<and> cell (fst (checkMatches g)) (fst q) (snd q) = EMPTY}"
    using vq cq by simp
qed

text \<open>
  C2, amended. For every well-formed grid in which the six neighbours of a board
  coordinate \<open>(r, c)\<close> all belong to one eligible group (the group of a ball \<open>p\<close>, of at
  least 6 members), \<^verbatim>\<open>checkMatches\<close> of \<^verbatim>\<open>src/6ball.tsx\<close> empties the six ring cells;
  the centre cell is emptied when it holds the ring's colour (it is then a member of
  the ring's group), and a centre of another colour whose own group has fewer than 6
  members keeps its value (a ball stays, an empty centre stays empty). The cleared set
  is exactly the union of the eligible groups: on every well-formed grid a board cell
  is emptied when it holds a ball whose group has at least 6 members and keeps its value
  otherwise, so the set of board cells that held a ball and are empty after the pass
  equals the union of the eligible groups. The centre is included whatever its colour
  only in the list \<^verbatim>\<open>checkHexagon\<close> of the second source file returns: the six
  neighbours, followed by the centre when the centre is not empty.
\<close>

theorem hexagon_center_cleared_with_its_group:
  "(wfGrid g \<and> isValidPos r c \<and> length (getNeighbors r c) = 6
    \<and> isValidPos (fst p) (snd p) \<and> cell g (fst p) (snd p) \<noteq> EMPTY
    \<and> 6 \<le> card (component g p) \<and> set (getNeighbors r c) \<subseteq> component g p
    \<longrightarrow>
      (\<forall>n \<in> set (getNeighbors r c). cell (fst (checkMatches g)) (fst n) (snd n) = EMPTY)
      \<and> (cell g r c = cell g (fst p) (snd p) \<longrightarrow>
           (r, c) \<in> component g p \<and> cell (fst (checkMatches g)) r c = EMPTY)
      \<and> (cell g r c \<noteq> cell g (fst p) (snd p) \<and> card (component g (r, c)) < 6 \<longrightarrow>
           cell (fst (checkMatches g)) r c = cell g r c)
      \<and> (\<forall>qr qc. isValidPos qr qc \<and> cell (fst (checkMatches g)) qr qc \<noteq> cell g qr qc \<longrightarrow>
           cell g qr qc \<noteq> EMPTY \<and> 6 \<le> card (component g (qr, qc))))
   \<and> (wfGrid g \<longrightarrow>
        (\<forall>qr qc. isValidPos qr qc \<longrightarrow>
           cell (fst (checkMatches g)) qr qc =
             (if cell g qr qc \<noteq> EMPTY \<and> 6 \<le> card (component g (qr, qc)) then EMPTY
              else cell g qr qc))
        \<and> {q. isValidPos (fst q) (snd q) \<and> cell g (fst q) (snd q) \<noteq> EMPTY
                \<and> cell (fst (checkMatches g)) (fst q) (snd q) = EMPTY}
            = \<Union> (eligibleGroups g))
   \<and> checkHexagon g r c color =
       (if length (getNeighbors r c) = 6
           \<and> (\<forall>n \<in> set (getNeighbors r c). cell g (fst n) (snd n) = color)
        then Some (getNeighbors r c @ (if cell g r c \<noteq> EMPTY then [(r, c)] else []))
        else None)"
proof (rule conjI, intro impI, elim conjE, intro conjI ballI impI allI)
  fix n
  assume w: "wfGrid g" and vp: "isValidPos (fst p) (snd p)"
    and pe: "cell g (fst p) (snd p) \<noteq> EMPTY" and big: "6 \<le> card (component g p)"
    and ring: "set (getNeighbors r c) \<subseteq> component g p" and n: "n \<in> set (getNeighbors r c)"
  have np: "n \<in> component g p" using n ring by auto
  have vn: "isValidPos (fst n) (snd n)" using np vp by (rule component_valid)
  have "component g (fst n, snd n) = component g p" using component_eq [OF np] by simp
  moreover have "cell g (fst n) (snd n) \<noteq> EMPTY" using component_color [OF np] pe by simp
  ultimately show "cell (fst (checkMatches g)) (fst n) (snd n) = EMPTY"
    using checkMatches_cell [OF w vn] big by simp
next
  assume w: "wfGrid g" and v: "isValidPos r c" and six: "length (getNeighbors r c) = 6"
    and pe: "cell g (fst p) (snd p) \<noteq> EMPTY" and big: "6 \<le> card (component g p)"
    and ring: "set (getNeighbors r c) \<subseteq> component g p"
    and col: "cell g r c = cell g (fst p) (snd p)"
  show m: "(r, c) \<in> component g p" using v six ring col by (rule ring_center_joins)
  have "component g (r, c) = component g p" using m by (rule component_eq)
  then show "cell (fst (checkMatches g)) r c = EMPTY"
    using checkMatches_cell [OF w v] big pe col by simp
next
  assume w: "wfGrid g" and v: "isValidPos r c"
    and "cell g r c \<noteq> cell g (fst p) (snd p) \<and> card (component g (r, c)) < 6"
  then show "cell (fst (checkMatches g)) r c = cell g r c"
    using checkMatches_cell [OF w v] by simp
next
  fix qr qc
  assume w: "wfGrid g"
    and q: "isValidPos qr qc \<and> cell (fst (checkMatches g)) qr qc \<noteq> cell g qr qc"
  then show "cell g qr qc \<noteq> EMPTY" using checkMatches_cell [OF w, of qr qc] by auto
  from w q show "6 \<le> card (component g (qr, qc))"
    using checkMatches_cell [OF w, of qr qc] by (auto split: if_splits)
next
  have e: "\<forall>qr qc. isValidPos qr qc \<longrightarrow>
           cell (fst (checkMatches g)) qr qc =
             (if cell g qr qc \<noteq> EMPTY \<and> 6 \<le> card (component g (qr, qc)) then EMPTY
              else cell g qr qc)" if w: "wfGrid g"
    by (intro allI impI) (rule checkMatches_cell [OF w])
  have h: "checkHexagon g r c color =
       (if length (getNeighbors r c) = 6
           \<and> (\<forall>n \<in> set (getNeighbors r c). cell g (fst n) (snd n) = color)
        then Some (getNeighbors r c @ (if cell g r c \<noteq> EMPTY then [(r, c)] else []))
        else None)"
    by (rule checkHexagon_iff)
  show "(wfGrid g \<longrightarrow>
        (\<forall>qr qc. isValidPos qr qc \<longrightarrow>
           cell (fst (checkMatches g)) qr qc =
             (if cell g qr qc \<noteq> EMPTY \<and> 6 \<le> card (component g (qr, qc)) then EMPTY
              else cell g qr qc))
        \<and> {q. isValidPos (fst q) (snd q) \<and> cell g (fst q) (snd q) \<noteq> EMPTY
                \<and> cell (fst (checkMatches g)) (fst q) (snd q) = EMPTY}
            = \<Union> (eligibleGroups g))
   \<and> checkHexagon g r c color =
       (if length (getNeighbors r c) = 6
           \<and> (\<forall>n \<in> set (getNeighbors r c). cell g (fst n) (snd n) = color)
        then Some (getNeighbors r c @ (if cell g r c \<noteq> EMPTY then [(r, c)] else []))
        else None)"
    apply (rule conjI)
     apply (rule impI)
     apply (rule conjI)
      apply (erule e)
     apply (erule checkMatches_cleared_set)
    apply (rule h)
    done
qed

lemma ringBottom_ring_facts:
  "set (getNeighbors 18 4) \<subseteq> component ringBottomGrid (17, 3)"
  "6 \<le> card (component ringBottomGrid (17, 3))"
  unfolding ringBottom_ring ring_positions(4) by code_simp+

theorem hexagon_center_cleared_with_its_group_witness:
  "wfGrid ringBottomGrid \<and> isValidPos 18 4 \<and> length (getNeighbors 18 4) = 6
   \<and> isValidPos 17 3 \<and> cell ringBottomGrid 17 3 \<noteq> EMPTY
   \<and> 6 \<le> card (component ringBottomGrid (17, 3))
   \<and> set (getNeighbors 18 4) \<subseteq> component ringBottomGrid (17, 3)
   \<and> cell ringBottomGrid 18 4 \<noteq> cell ringBottomGrid 17 3
   \<and> card (component ringBottomGrid (18, 4)) < 6
   \<and> cell (fst (checkMatches ringBottomGrid)) 18 4 = cell ringBottomGrid 18 4
   \<and> checkHexagon ringBottomGrid 18 4 5 =
       Some [(17, 3), (17, 4), (18, 3), (18, 5), (19, 3), (19, 4), (18, 4)]"
proof -
  note t = hexagon_center_cleared_with_its_group [of ringBottomGrid 18 4 "(17, 3)" 5]
  have hyp: "wfGrid ringBottomGrid \<and> isValidPos 18 4 \<and> length (getNeighbors 18 4) = 6
    \<and> isValidPos (fst (17, 3)) (snd (17, 3))
    \<and> cell ringBottomGrid (fst (17, 3)) (snd (17, 3)) \<noteq> EMPTY
    \<and> 6 \<le> card (component ringBottomGrid (17, 3))
    \<and> set (getNeighbors 18 4) \<subseteq> component ringBottomGrid (17, 3)"
    using example_grids_wf(2) ring_positions(1,2,3) ringBottom_ring_facts ringBottom_eval(2)
    by (simp add: EMPTY_def)
  note c = t [THEN conjunct1, THEN mp, OF hyp]
  note c3 = c [THEN conjunct2, THEN conjunct2, THEN conjunct1]
  have ne: "cell ringBottomGrid 18 4 \<noteq> cell ringBottomGrid (fst (17, 3)) (snd (17, 3))"
    using ringBottom_eval(1,2) by simp
  have small: "card (component ringBottomGrid (18, 4)) < 6"
    using ringBottom_center by simp
  have keep: "cell (fst (checkMatches ringBottomGrid)) 18 4 = cell ringBottomGrid 18 4"
    using c3 ne small by blast
  show ?thesis
    using hyp ne small keep ringBottom_eval(12) by simp
qed

section \<open>Game state machine\<close>

text \<open>
  The state the \<^verbatim>\<open>SETTLING\<close> branch of \<^verbatim>\<open>update\<close> reads and writes:
  \<^verbatim>\<open>gridRef.current\<close>, the active piece, the next colours, the score, the game state,
  the message and \<^verbatim>\<open>settleTimerRef.current\<close>.
\<close>

datatype GameStatus = START | PLAYING | SETTLING | GAME_OVER

record Game =
  gm_grid :: Grid
  gm_activePiece :: "FloatingPiece option"
  gm_nextColors :: "int list"
  gm_score :: int
  gm_gameState :: GameStatus
  gm_message :: string
  gm_settleTimer :: real

definition SETTLE_INTERVAL :: real where "SETTLE_INTERVAL = 50"

definition checkGameOver :: "Grid \<Rightarrow> bool" where
  "checkGameOver g = list_ex (\<lambda>r. list_ex (\<lambda>c. c \<noteq> EMPTY) (g ! nat r)) [0..HIDDEN_ROWS - 1]"

text \<open>
  The branch \<^verbatim>\<open>else if (gameState === 'SETTLING')\<close> of \<^verbatim>\<open>update\<close>. \<open>rnd\<close> resolves
  the tie-breaks of the gravity step, \<open>fresh\<close> is what \<^verbatim>\<open>generateNextColors()\<close> returns
  if a piece is spawned, \<open>deltaTime\<close> the time since the last frame.
\<close>

definition updateSettling :: "(nat \<Rightarrow> bool) \<Rightarrow> int list \<Rightarrow> real \<Rightarrow> Game \<Rightarrow> Game" where
  "updateSettling rnd fresh deltaTime s =
     (let timer = gm_settleTimer s + deltaTime
      in if timer > SETTLE_INTERVAL then
           let (newGrid, moved) = runPhysicsStep rnd (gm_grid s);
               s1 = s\<lparr>gm_grid := newGrid\<rparr>
           in if \<not> moved then
                let (matchGrid, points) = checkMatches (gm_grid s1)
                in if points > 0
                   then s1\<lparr>gm_score := gm_score s1 + points, gm_grid := matchGrid,
                           gm_settleTimer := 0\<rparr>
                   else if checkGameOver (gm_grid s1)
                   then s1\<lparr>gm_gameState := GAME_OVER, gm_message := ''Game Over!'',
                           gm_settleTimer := 0\<rparr>
                   else s1\<lparr>gm_gameState := PLAYING,
                           gm_activePiece := Some (spawnPiece (gm_nextColors s1)),
                           gm_nextColors := fresh, gm_settleTimer := 0\<rparr>
              else s1\<lparr>gm_settleTimer := 0\<rparr>
         else s\<lparr>gm_settleTimer := timer\<rparr>)"

lemma checkGameOver_iff:
  assumes "wfGrid g"
  shows "checkGameOver g \<longleftrightarrow>
           (\<exists>r c. 0 \<le> r \<and> r < HIDDEN_ROWS \<and> 0 \<le> c \<and> c < COLS \<and> cell g r c \<noteq> EMPTY)"
proof
  assume "checkGameOver g"
  then obtain r v where r: "0 \<le> r" "r \<le> HIDDEN_ROWS - 1" and v: "v \<in> set (g ! nat r)" "v \<noteq> EMPTY"
    by (auto simp: checkGameOver_def list_ex_iff)
  from v(1) obtain i where i: "i < length (g ! nat r)" "g ! nat r ! i = v"
    by (auto simp: in_set_conv_nth)
  have "nat r < length g" using assms r by (auto simp: wfGrid_def board_consts)
  then have "int (length (g ! nat r)) = COLS" using assms by (simp add: wfGrid_def list_all_length)
  then have "int i < COLS" using i(1) by simp
  moreover have "cell g r (int i) = v" using i(2) by (simp add: cell_def)
  ultimately show "\<exists>r c. 0 \<le> r \<and> r < HIDDEN_ROWS \<and> 0 \<le> c \<and> c < COLS \<and> cell g r c \<noteq> EMPTY"
    using r v(2) by (intro exI [of _ r] exI [of _ "int i"]) simp
next
  assume "\<exists>r c. 0 \<le> r \<and> r < HIDDEN_ROWS \<and> 0 \<le> c \<and> c < COLS \<and> cell g r c \<noteq> EMPTY"
  then obtain r c where rc: "0 \<le> r" "r < HIDDEN_ROWS" "0 \<le> c" "c < COLS" "cell g r c \<noteq> EMPTY"
    by blast
  have "isValidPos r c" using rc by (simp add: isValidPos_def board_consts)
  then have "nat c < length (g ! nat r)" using wfGrid_rows [OF assms] by simp
  then have "g ! nat r ! nat c \<in> set (g ! nat r)" by simp
  then have "list_ex (\<lambda>c. c \<noteq> EMPTY) (g ! nat r)"
    using rc(5) unfolding list_ex_iff cell_def by blast
  moreover have "r \<in> set [0..HIDDEN_ROWS - 1]" using rc by simp
  ultimately show "checkGameOver g" unfolding checkGameOver_def list_ex_iff by blast
qed

lemma groupScore_pos: "6 \<le> card C \<Longrightarrow> 600 \<le> groupScore g C"
  by (simp add: groupScore_def classifyGroup_def)

lemma checkMatches_points_nonneg:
  assumes "wfGrid g"
  shows "0 \<le> snd (checkMatches g)"
  unfolding checkMatches_points [OF assms]
proof (rule sum_nonneg)
  fix C assume "C \<in> eligibleGroups g"
  then have "6 \<le> card C" by (auto simp: eligibleGroups_def)
  then show "0 \<le> groupScore g C" using groupScore_pos [of C g] by simp
qed

text \<open>
  C8. In the \<^verbatim>\<open>SETTLING\<close> state, on a tick whose timer passes the settle interval and
  whose gravity step yields no movement (the grid is then unchanged by the step): when
  match detection returns zero points, the game state becomes \<^verbatim>\<open>GAME_OVER\<close> exactly
  when some cell of the top \<open>HIDDEN_ROWS\<close> rows is not \<open>EMPTY\<close>, and otherwise becomes
  \<^verbatim>\<open>PLAYING\<close> with a piece spawned from the next colours the state held (which are
  then replaced by freshly generated ones); when the points are positive, the cleared
  grid is stored, the points are added to the score, and the state stays
  \<^verbatim>\<open>SETTLING\<close> without a piece, so the next tick runs gravity again. Points are never
  negative, so the two cases are all there is.
\<close>

theorem settling_transitions:
  "wfGrid (gm_grid s) \<and> gm_gameState s = SETTLING
   \<and> gm_settleTimer s + deltaTime > SETTLE_INTERVAL
   \<and> \<not> snd (runPhysicsStep rnd (gm_grid s))
   \<longrightarrow>
     0 \<le> snd (checkMatches (gm_grid s))
     \<and> (snd (checkMatches (gm_grid s)) = 0 \<longrightarrow>
          (gm_gameState (updateSettling rnd fresh deltaTime s) = GAME_OVER \<longleftrightarrow>
             (\<exists>r c. 0 \<le> r \<and> r < HIDDEN_ROWS \<and> 0 \<le> c \<and> c < COLS
                    \<and> cell (gm_grid s) r c \<noteq> EMPTY))
          \<and> (gm_gameState (updateSettling rnd fresh deltaTime s) \<noteq> GAME_OVER \<longrightarrow>
               gm_gameState (updateSettling rnd fresh deltaTime s) = PLAYING
               \<and> gm_activePiece (updateSettling rnd fresh deltaTime s)
                   = Some (spawnPiece (gm_nextColors s))
               \<and> gm_nextColors (updateSettling rnd fresh deltaTime s) = fresh)
          \<and> gm_grid (updateSettling rnd fresh deltaTime s) = gm_grid s
          \<and> gm_score (updateSettling rnd fresh deltaTime s) = gm_score s)
     \<and> (snd (checkMatches (gm_grid s)) > 0 \<longrightarrow>
          gm_grid (updateSettling rnd fresh deltaTime s) = fst (checkMatches (gm_grid s))
          \<and> gm_score (updateSettling rnd fresh deltaTime s)
              = gm_score s + snd (checkMatches (gm_grid s))
          \<and> gm_gameState (updateSettling rnd fresh deltaTime s) = SETTLING
          \<and> gm_activePiece (updateSettling rnd fresh deltaTime s) = gm_activePiece s)"
proof (intro impI, elim conjE)
  assume w: "wfGrid (gm_grid s)" and st: "gm_gameState s = SETTLING"
    and t: "gm_settleTimer s + deltaTime > SETTLE_INTERVAL"
    and nm: "\<not> snd (runPhysicsStep rnd (gm_grid s))"
  have same: "fst (runPhysicsStep rnd (gm_grid s)) = gm_grid s"
    using nm by (rule runPhysicsStep_unchanged)
  then have run: "runPhysicsStep rnd (gm_grid s) = (gm_grid s, False)"
    using nm by (cases "runPhysicsStep rnd (gm_grid s)") simp
  obtain mg pts where cm: "checkMatches (gm_grid s) = (mg, pts)"
    by (cases "checkMatches (gm_grid s)") auto
  have u: "updateSettling rnd fresh deltaTime s =
      (if pts > 0 then s\<lparr>gm_score := gm_score s + pts, gm_grid := mg, gm_settleTimer := 0\<rparr>
       else if checkGameOver (gm_grid s)
       then s\<lparr>gm_gameState := GAME_OVER, gm_message := ''Game Over!'', gm_settleTimer := 0\<rparr>
       else s\<lparr>gm_gameState := PLAYING, gm_activePiece := Some (spawnPiece (gm_nextColors s)),
               gm_nextColors := fresh, gm_settleTimer := 0\<rparr>)"
    using t by (simp add: updateSettling_def Let_def run cm)
  have nn: "0 \<le> pts" using checkMatches_points_nonneg [OF w] cm by simp
  show "0 \<le> snd (checkMatches (gm_grid s))
     \<and> (snd (checkMatches (gm_grid s)) = 0 \<longrightarrow>
          (gm_gameState (updateSettling rnd fresh deltaTime s) = GAME_OVER \<longleftrightarrow>
             (\<exists>r c. 0 \<le> r \<and> r < HIDDEN_ROWS \<and> 0 \<le> c \<and> c < COLS
                    \<and> cell (gm_grid s) r c \<noteq> EMPTY))
          \<and> (gm_gameState (updateSettling rnd fresh deltaTime s) \<noteq> GAME_OVER \<longrightarrow>
               gm_gameState (updateSettling rnd fresh deltaTime s) = PLAYING
               \<and> gm_activePiece (updateSettling rnd fresh deltaTime s)
                   = Some (spawnPiece (gm_nextColors s))
               \<and> gm_nextColors (updateSettling rnd fresh deltaTime s) = fresh)
          \<and> gm_grid (updateSettling rnd fresh deltaTime s) = gm_grid s
          \<and> gm_score (updateSettling rnd fresh deltaTime s) = gm_score s)
     \<and> (snd (checkMatches (gm_grid s)) > 0 \<longrightarrow>
          gm_grid (updateSettling rnd fresh deltaTime s) = fst (checkMatches (gm_grid s))
          \<and> gm_score (updateSettling rnd fresh deltaTime s)
              = gm_score s + snd (checkMatches (gm_grid s))
          \<and> gm_gameState (updateSettling rnd fresh deltaTime s) = SETTLING
          \<and> gm_activePiece (updateSettling rnd fresh deltaTime s) = gm_activePiece s)"
    unfolding u cm using nn st checkGameOver_iff [OF w] by auto
qed

definition settlingGame :: "Grid \<Rightarrow> Game" where
  "settlingGame g =
     \<lparr>gm_grid = g, gm_activePiece = None, gm_nextColors = [0, 1, 2], gm_score = 0,
      gm_gameState = SETTLING, gm_message = [], gm_settleTimer = 0\<rparr>"

lemma settling_examples:
  "wfGrid fullGrid" "\<not> snd (runPhysicsStep (\<lambda>_. True) fullGrid)"
  "snd (checkMatches fullGrid) = 0" "cell fullGrid 0 0 \<noteq> EMPTY"
  "wfGrid (setCell emptyGrid 19 4 2)"
  "\<not> snd (runPhysicsStep (\<lambda>_. True) (setCell emptyGrid 19 4 2))"
  "snd (checkMatches (setCell emptyGrid 19 4 2)) = 0"
  "\<not> checkGameOver (setCell emptyGrid 19 4 2)"
  "\<not> snd (runPhysicsStep (\<lambda>_. True) lineGrid)"
  "fst (checkMatches lineGrid) = emptyGrid"
  by code_simp+

theorem settling_transitions_witness:
  "wfGrid fullGrid \<and> \<not> snd (runPhysicsStep (\<lambda>_. True) fullGrid)
   \<and> snd (checkMatches fullGrid) = 0 \<and> cell fullGrid 0 0 \<noteq> EMPTY
   \<and> gm_gameState (updateSettling (\<lambda>_. True) [3, 4, 5] 51 (settlingGame fullGrid)) = GAME_OVER
   \<and> gm_gameState (updateSettling (\<lambda>_. True) [3, 4, 5] 51 (settlingGame (setCell emptyGrid 19 4 2)))
       = PLAYING
   \<and> gm_activePiece (updateSettling (\<lambda>_. True) [3, 4, 5] 51 (settlingGame (setCell emptyGrid 19 4 2)))
       = Some (spawnPiece [0, 1, 2])
   \<and> gm_score (updateSettling (\<lambda>_. True) [3, 4, 5] 51 (settlingGame lineGrid)) = 1100
   \<and> gm_grid (updateSettling (\<lambda>_. True) [3, 4, 5] 51 (settlingGame lineGrid)) = emptyGrid
   \<and> gm_gameState (updateSettling (\<lambda>_. True) [3, 4, 5] 51 (settlingGame lineGrid)) = SETTLING"
proof -
  have ov: "\<exists>r c. 0 \<le> r \<and> r < HIDDEN_ROWS \<and> 0 \<le> c \<and> c < COLS \<and> cell fullGrid r c \<noteq> EMPTY"
    using settling_examples(4) by (intro exI [of _ 0]) (simp add: board_consts)
  have no: "\<not> (\<exists>r c. 0 \<le> r \<and> r < HIDDEN_ROWS \<and> 0 \<le> c \<and> c < COLS
                \<and> cell (setCell emptyGrid 19 4 2) r c \<noteq> EMPTY)"
    using checkGameOver_iff [OF settling_examples(5)] settling_examples(8) by simp
  have a: "gm_gameState (updateSettling (\<lambda>_. True) [3, 4, 5] 51 (settlingGame fullGrid)) = GAME_OVER"
    using settling_transitions [of "settlingGame fullGrid" 51 "\<lambda>_. True" "[3, 4, 5]"]
      settling_examples(1,2,3) ov
    by (simp add: settlingGame_def SETTLE_INTERVAL_def)
  have b: "gm_gameState (updateSettling (\<lambda>_. True) [3, 4, 5] 51 (settlingGame (setCell emptyGrid 19 4 2))) = PLAYING
      \<and> gm_activePiece (updateSettling (\<lambda>_. True) [3, 4, 5] 51 (settlingGame (setCell emptyGrid 19 4 2)))
          = Some (spawnPiece [0, 1, 2])"
    using settling_transitions [of "settlingGame (setCell emptyGrid 19 4 2)" 51 "\<lambda>_. True" "[3, 4, 5]"]
      settling_examples(5,6,7) no
    by (simp add: settlingGame_def SETTLE_INTERVAL_def)
  have c: "gm_score (updateSettling (\<lambda>_. True) [3, 4, 5] 51 (settlingGame lineGrid)) = 1100
      \<and> gm_grid (updateSettling (\<lambda>_. True) [3, 4, 5] 51 (settlingGame lineGrid)) = emptyGrid
      \<and> gm_gameState (updateSettling (\<lambda>_. True) [3, 4, 5] 51 (settlingGame lineGrid)) = SETTLING"
    using settling_transitions [of "settlingGame lineGrid" 51 "\<lambda>_. True" "[3, 4, 5]"]
      example_grids_wf(1) settling_examples(9,10) lineGrid_eval
    by (simp add: settlingGame_def SETTLE_INTERVAL_def)
  show ?thesis using a b c settling_examples(1,2,3,4) by simp
qed

end
